theory Spec2Isabelle
  imports Main
begin

section \<open>The task runner of bokehjs/make/task.ts\<close>

text \<open>
  A shallow embedding of \<^verbatim>\<open>src/bokehjs/make/task.ts\<close>: the result algebra, the task
  registry, the name resolver \<^verbatim>\<open>resolve_task\<close>, the executor \<^verbatim>\<open>exec_task\<close> and the
  memoised graph runner \<^verbatim>\<open>run\<close> with its inner function \<^verbatim>\<open>_run\<close>.

  Conventions of the embedding.
  \<^item> A JavaScript exception (a rejected promise) is the left summand of a sum; a
    normal return is the right summand.
  \<^item> The recursion of \<^verbatim>\<open>_run\<close> need not terminate (a cyclic dependency graph), so it
    takes a recursion depth; \<open>None\<close> says that the depth did not suffice.
  \<^item> Everything the code does to the outside is appended to a trace: the calls of
    \<^verbatim>\<open>log\<close>, the call of a task's action, the call of \<^verbatim>\<open>show_failure\<close>. Colours
    (\<^verbatim>\<open>chalk\<close>) and wall-clock values (\<^verbatim>\<open>Date\<close>) are left out of the messages.
  \<^item> An action is a function of the world outside the runner: it returns how the
    awaited call completed, and the new world. Awaiting an action always ends.
  \<^item> The registry is not changed while \<^verbatim>\<open>run\<close> is in progress, so the sequence that the
    generator \<^verbatim>\<open>resolve_task\<close> yields step by step is the list computed at once.
  \<^item> Line 139 calls \<^verbatim>\<open>_run(dep)\<close> before it awaits, so the calls of \<^verbatim>\<open>_run\<close> nest on the
    call stack. The model has no bound on the stack: where the calls of the program nest
    deeper than the engine allows and the promise of \<^verbatim>\<open>run\<close> is rejected with a RangeError,
    the model has no result at any depth. No statement below says that \<^verbatim>\<open>run\<close> does not
    end; what is stated of such a run is that it returns no Result.
\<close>

subsection \<open>Result algebra (lines 3-41)\<close>

datatype error =
    BuildError (component: string) (message: string)
  | JsError string string
  | Nullish

text \<open>
  \<open>BuildError c m\<close> is \<^verbatim>\<open>new BuildError(c, m)\<close>. \<open>JsError k m\<close> is any other thrown value
  that line 59 can print, with its kind and message: an \<^verbatim>\<open>Error\<close> of another class
  (\<open>JsError ''TypeError'' m\<close> is what the engine throws on a call of a missing method or
  on a property read of \<^verbatim>\<open>undefined\<close>), a string, a number. \<open>Nullish\<close> is \<^verbatim>\<open>undefined\<close> or
  \<^verbatim>\<open>null\<close> as the reason of a throw or of a rejection (a promise rejected with no
  reason), or as the value of a Failure; it also stands for a thrown object that has
  neither a stack nor a method \<^verbatim>\<open>toString\<close>, on which line 59 throws as well.
\<close>

datatype jsvalue = Undefined | Bare string

text \<open>
  \<open>Undefined\<close> is \<^verbatim>\<open>undefined\<close>; \<open>Bare v\<close> is any other value that is not a
  \<^verbatim>\<open>Success\<close> or \<^verbatim>\<open>Failure\<close> object and has no method \<^verbatim>\<open>is_Success\<close> (a number, a
  string, \<^verbatim>\<open>null\<close>, a plain object), named by its printed form.
\<close>

datatype result = Success jsvalue | Failure error

fun is_Success :: "result \<Rightarrow> bool" where
  "is_Success (Success v) = True"
| "is_Success (Failure e) = False"

fun is_Failure :: "result \<Rightarrow> bool" where
  "is_Failure (Success v) = False"
| "is_Failure (Failure e) = True"

definition success :: "jsvalue \<Rightarrow> result" where
  "success v = Success v"

definition failure :: "error \<Rightarrow> result" where
  "failure e = Failure e"

subsection \<open>Tasks and the registry (lines 63-85)\<close>

text \<open>
  What \<^verbatim>\<open>await task.fn()\<close> gives: the action throws or rejects, or it returns a value
  that is not a Result (\<open>Returns_value Undefined\<close> when it returns nothing), or it returns
  a Result. The type \<^verbatim>\<open>Fn<T> = () => Promise<Result<T> | void>\<close> allows every completion
  but \<open>Returns_value (Bare v)\<close>.
\<close>

datatype completion = Throws error | Returns_value jsvalue | Returns_result result

record 'w Task =
  name :: string
  deps :: "string list"
  fn :: "('w \<Rightarrow> completion \<times> 'w) option"

text \<open>
  The registry \<^verbatim>\<open>tasks\<close> is a \<^verbatim>\<open>Map<string, Task>\<close> whose only writer, \<^verbatim>\<open>task\<close>, stores
  a task under its own name. It is the list of its values in insertion order; the key of
  a task is its \<open>name\<close>.
\<close>

type_synonym 'w registry = "'w Task list"

definition tasks_get :: "'w registry \<Rightarrow> string \<Rightarrow> 'w Task option" where
  "tasks_get reg nm = find (\<lambda>t. name t = nm) reg"

definition tasks_has :: "'w registry \<Rightarrow> string \<Rightarrow> bool" where
  "tasks_has reg nm = (tasks_get reg nm \<noteq> None)"

text \<open>\<^verbatim>\<open>Map.set\<close>: a key that is present keeps its place, a new key goes last.\<close>

definition tasks_set :: "'w registry \<Rightarrow> 'w Task \<Rightarrow> 'w registry" where
  "tasks_set reg t =
     (if tasks_has reg (name t) then map (\<lambda>u. if name u = name t then t else u) reg
      else reg @ [t])"

text \<open>
  \<^verbatim>\<open>task(name, deps, fn?)\<close>: the second argument is the list of dependencies (\<open>Inl\<close>) or,
  when it is not an array, the action (\<open>Inr\<close>), which then replaces \<^verbatim>\<open>fn\<close>.
\<close>

definition task ::
  "'w registry \<Rightarrow> string \<Rightarrow> (string list + ('w \<Rightarrow> completion \<times> 'w)) \<Rightarrow>
   ('w \<Rightarrow> completion \<times> 'w) option \<Rightarrow> 'w registry" where
  "task reg nm ds f =
     (case ds of
        Inl dl \<Rightarrow> tasks_set reg \<lparr>name = nm, deps = dl, fn = f\<rparr>
      | Inr g \<Rightarrow> tasks_set reg \<lparr>name = nm, deps = [], fn = Some g\<rparr>)"

definition task_names :: "'w registry \<Rightarrow> string list" where
  "task_names reg = map name reg"

subsection \<open>The name resolver (lines 87-104)\<close>

text \<open>\<^verbatim>\<open>s.split(c)\<close> for a separator of one character: never the empty list.\<close>

fun split_on :: "char \<Rightarrow> string \<Rightarrow> string list" where
  "split_on c [] = [[]]"
| "split_on c (x # xs) =
     (if x = c then [] # split_on c xs
      else (case split_on c xs of [] \<Rightarrow> [[x]] | p # ps \<Rightarrow> (x # p) # ps))"

text \<open>
  \<^verbatim>\<open>s.split(c, limit)\<close>: JavaScript splits at every separator and keeps the first
  \<open>limit\<close> pieces; the rest of the string is dropped.
\<close>

definition js_split :: "char \<Rightarrow> nat \<Rightarrow> string \<Rightarrow> string list" where
  "js_split c limit s = take limit (split_on c s)"

text \<open>
  Line 88, \<^verbatim>\<open>const [prefix, suffix] = name.split(":", 2)\<close>: a piece that the array does
  not have is \<^verbatim>\<open>undefined\<close>, here \<open>None\<close>.
\<close>

definition split_name :: "string \<Rightarrow> string option \<times> string option" where
  "split_name nm =
     (case js_split (CHR '':'') 2 nm of
        [] \<Rightarrow> (None, None)
      | [p] \<Rightarrow> (Some p, None)
      | p # q # _ \<Rightarrow> (Some p, Some q))"

text \<open>A value inside a template literal: \<^verbatim>\<open>undefined\<close> prints as its name.\<close>

fun template :: "string option \<Rightarrow> string" where
  "template None = ''undefined''"
| "template (Some s) = s"

definition endsWith :: "string \<Rightarrow> string \<Rightarrow> bool" where
  "endsWith s x = (length x \<le> length s \<and> drop (length s - length x) s = x)"

text \<open>\<^verbatim>\<open>chalk.cyan\<close> only colours its argument; the colour codes are left out.\<close>

definition cyan :: "string \<Rightarrow> string" where
  "cyan s = s"

definition quoted :: "string \<Rightarrow> string" where
  "quoted s = [CHR 0x27] @ s @ [CHR 0x27]"

definition unknown_task_message :: "string \<Rightarrow> 'w Task option \<Rightarrow> string" where
  "unknown_task_message nm parent =
     ''unknown task '' @ quoted (cyan nm) @
     (case parent of
        None \<Rightarrow> []
      | Some p \<Rightarrow> '' referenced from '' @ quoted (cyan (name p)))"

text \<open>
  The generator \<^verbatim>\<open>resolve_task\<close> either yields tasks and ends, or throws before its
  first yield: \<open>Inr\<close> of the tasks in the order yielded, or \<open>Inl\<close> of the error.
\<close>

definition resolve_task ::
  "'w registry \<Rightarrow> string \<Rightarrow> 'w Task option \<Rightarrow> error + 'w Task list" where
  "resolve_task reg nm parent =
     (case split_name nm of
        (prefix, suffix) \<Rightarrow>
          if prefix = Some ''*'' then
            Inr (filter (\<lambda>t. endsWith (name t) ('':'' @ template suffix)) reg)
          else if tasks_has reg nm then
            (case tasks_get reg nm of
               Some t \<Rightarrow> Inr [t]
             | None \<Rightarrow> Inr [])
          else Inl (BuildError ''build'' (unknown_task_message nm parent)))"

subsection \<open>The executor (lines 106-126)\<close>

datatype event =
    Starting string
  | Finished string
  | Completed string bool
  | Invoked string
  | Failure_detail error

text \<open>
  \<open>Starting n\<close> is the \<^verbatim>\<open>log\<close> of line 111, \<open>Finished n\<close> the one of line 108 (a task with
  no action), \<open>Completed n ok\<close> the one of line 123 (\<^verbatim>\<open>Finished\<close> when \<open>ok\<close>, \<^verbatim>\<open>Failed\<close>
  otherwise, with the duration), \<open>Invoked n\<close> the call \<^verbatim>\<open>task.fn()\<close> of line 115, and
  \<open>Failure_detail e\<close> the call of \<^verbatim>\<open>show_failure\<close> on a Failure of \<open>e\<close> (line 154).
\<close>

record 'w run_state =
  finished :: "string \<rightharpoonup> result"
  world :: 'w
  trace :: "event list"

text \<open>
  \<open>finished\<close> is the \<^verbatim>\<open>Map<Task, Result>\<close> of line 129. Its keys are Task objects of the
  registry, which holds one object per name, so a key is given by its name.
\<close>

definition log :: "event \<Rightarrow> 'w run_state \<Rightarrow> 'w run_state" where
  "log ev s = s\<lparr>trace := trace s @ [ev]\<rparr>"

text \<open>
  \<^verbatim>\<open>show_failure\<close> (lines 54-61) logs the message of a \<open>BuildError\<close> and prints the stack
  or the text of any other error; both are the one event \<open>Failure_detail\<close>. On a Failure
  of \<^verbatim>\<open>undefined\<close> or \<^verbatim>\<open>null\<close> the test \<^verbatim>\<open>instanceof\<close> is false and line 59 reads
  \<^verbatim>\<open>error.stack\<close>, which throws a TypeError before anything is logged. The wording of the
  message depends on the value; one wording stands for both.
\<close>

definition cannot_read_stack :: error where
  "cannot_read_stack =
     JsError ''TypeError'' ''Cannot read properties of undefined (reading stack)''"

definition show_failure :: "error \<Rightarrow> 'w run_state \<Rightarrow> error + 'w run_state" where
  "show_failure e s =
     (case e of
        BuildError c m \<Rightarrow> Inr (log (Failure_detail e) s)
      | JsError k m \<Rightarrow> Inr (log (Failure_detail e) s)
      | Nullish \<Rightarrow> Inl cannot_read_stack)"

text \<open>
  With an action that returns a bare value \<open>v\<close>, line 116 sets \<^verbatim>\<open>result = v\<close> and line 123
  calls \<^verbatim>\<open>v.is_Success()\<close>, which throws a TypeError outside the \<^verbatim>\<open>try\<close>: the promise of
  \<^verbatim>\<open>exec_task\<close> is rejected after the start has been logged. The wording of the message
  depends on \<open>v\<close>; one wording stands for all.
\<close>

definition not_a_function :: error where
  "not_a_function = JsError ''TypeError'' ''result.is_Success is not a function''"

definition exec_task :: "'w Task \<Rightarrow> 'w run_state \<Rightarrow> (error + result) \<times> 'w run_state" where
  "exec_task t s =
     (case fn t of
        None \<Rightarrow> (Inr (success Undefined), log (Finished (cyan (name t))) s)
      | Some f \<Rightarrow>
          (let s1 = log (Starting (cyan (name t))) s;
               (c, w) = f (world s1);
               s2 = log (Invoked (name t)) (s1\<lparr>world := w\<rparr>)
           in case c of
                Throws e \<Rightarrow>
                  (Inr (failure e), log (Completed (cyan (name t)) False) s2)
              | Returns_value Undefined \<Rightarrow>
                  (Inr (success Undefined), log (Completed (cyan (name t)) True) s2)
              | Returns_value (Bare v) \<Rightarrow> (Inl not_a_function, s2)
              | Returns_result r \<Rightarrow>
                  (Inr r, log (Completed (cyan (name t)) (is_Success r)) s2)))"

subsection \<open>The graph runner (lines 128-170)\<close>

text \<open>
  The inner loop of \<^verbatim>\<open>_run\<close> (lines 138-142) over the tasks that one dependency name
  resolved to; \<open>rec\<close> is the recursive call, \<open>failed\<close> the flag of line 135.
\<close>

fun run_resolved ::
  "('w Task \<Rightarrow> 'w run_state \<Rightarrow> ((error + result) \<times> 'w run_state) option) \<Rightarrow>
   'w Task list \<Rightarrow> bool \<Rightarrow> 'w run_state \<Rightarrow> ((error + bool) \<times> 'w run_state) option" where
  "run_resolved rec [] failed s = Some (Inr failed, s)"
| "run_resolved rec (d # ds) failed s =
     (case rec d s of
        None \<Rightarrow> None
      | Some (Inl e, s') \<Rightarrow> Some (Inl e, s')
      | Some (Inr r, s') \<Rightarrow>
          run_resolved rec ds (if is_Failure r then True else failed) s')"

text \<open>The outer loop of \<^verbatim>\<open>_run\<close> (lines 137-143) over the dependency names.\<close>

fun run_deps ::
  "('w Task \<Rightarrow> 'w run_state \<Rightarrow> ((error + result) \<times> 'w run_state) option) \<Rightarrow>
   'w registry \<Rightarrow> 'w Task \<Rightarrow> string list \<Rightarrow> bool \<Rightarrow> 'w run_state \<Rightarrow>
   ((error + bool) \<times> 'w run_state) option" where
  "run_deps rec reg t [] failed s = Some (Inr failed, s)"
| "run_deps rec reg t (nm # nms) failed s =
     (case resolve_task reg nm (Some t) of
        Inl e \<Rightarrow> Some (Inl e, s)
      | Inr ds \<Rightarrow>
          (case run_resolved rec ds failed s of
             None \<Rightarrow> None
           | Some (Inl e, s') \<Rightarrow> Some (Inl e, s')
           | Some (Inr failed', s') \<Rightarrow> run_deps rec reg t nms failed' s'))"

definition task_failed_message :: "string \<Rightarrow> string" where
  "task_failed_message nm = ''task '' @ quoted (cyan nm) @ '' failed''"

text \<open>
  \<^verbatim>\<open>_run\<close> (lines 131-159), named \<open>run'\<close> here. The first argument bounds the depth of
  the recursion: \<open>None\<close> at the depth \<open>n\<close> says that the calls of \<^verbatim>\<open>_run\<close> nest deeper
  than \<open>n\<close>. When \<^verbatim>\<open>show_failure\<close> throws (line 154), the Result is already stored (line
  151) and the exception leaves \<^verbatim>\<open>_run\<close>.
\<close>

fun run' ::
  "nat \<Rightarrow> 'w registry \<Rightarrow> 'w Task \<Rightarrow> 'w run_state \<Rightarrow>
   ((error + result) \<times> 'w run_state) option" where
  "run' 0 reg t s = None"
| "run' (Suc n) reg t s =
     (case finished s (name t) of
        Some r \<Rightarrow> Some (Inr r, s)
      | None \<Rightarrow>
          (case run_deps (run' n reg) reg t (deps t) False s of
             None \<Rightarrow> None
           | Some (Inl e, s1) \<Rightarrow> Some (Inl e, s1)
           | Some (Inr failed, s1) \<Rightarrow>
               (case (if \<not> failed then exec_task t s1
                      else (Inr (failure (BuildError (name t) (task_failed_message (name t)))), s1)) of
                  (Inl e, s2) \<Rightarrow> Some (Inl e, s2)
                | (Inr r, s2) \<Rightarrow>
                    (let s3 = s2\<lparr>finished := (finished s2)(name t \<mapsto> r)\<rparr>
                     in case r of
                          Success v \<Rightarrow> Some (Inr r, s3)
                        | Failure e \<Rightarrow>
                            (case show_failure e s3 of
                               Inl x \<Rightarrow> Some (Inl x, s3)
                             | Inr s4 \<Rightarrow> Some (Inr r, s4))))))"

text \<open>
  The loops of \<^verbatim>\<open>run\<close> (lines 161-167). The inner one returns \<open>Some r\<close> when line 165
  returns the Failure \<open>r\<close>, and \<open>None\<close> when it runs to its end.
\<close>

fun run_matches ::
  "('w Task \<Rightarrow> 'w run_state \<Rightarrow> ((error + result) \<times> 'w run_state) option) \<Rightarrow>
   'w Task list \<Rightarrow> 'w run_state \<Rightarrow> ((error + result option) \<times> 'w run_state) option" where
  "run_matches rec [] s = Some (Inr None, s)"
| "run_matches rec (t # ts) s =
     (case rec t s of
        None \<Rightarrow> None
      | Some (Inl e, s') \<Rightarrow> Some (Inl e, s')
      | Some (Inr r, s') \<Rightarrow>
          (if is_Failure r then Some (Inr (Some r), s') else run_matches rec ts s'))"

fun run_names ::
  "('w Task \<Rightarrow> 'w run_state \<Rightarrow> ((error + result) \<times> 'w run_state) option) \<Rightarrow>
   'w registry \<Rightarrow> string list \<Rightarrow> 'w run_state \<Rightarrow>
   ((error + result) \<times> 'w run_state) option" where
  "run_names rec reg [] s = Some (Inr (success Undefined), s)"
| "run_names rec reg (nm # nms) s =
     (case resolve_task reg nm None of
        Inl e \<Rightarrow> Some (Inl e, s)
      | Inr ts \<Rightarrow>
          (case run_matches rec ts s of
             None \<Rightarrow> None
           | Some (Inl e, s') \<Rightarrow> Some (Inl e, s')
           | Some (Inr (Some r), s') \<Rightarrow> Some (Inr r, s')
           | Some (Inr None, s') \<Rightarrow> run_names rec reg nms s'))"

definition init :: "'w \<Rightarrow> 'w run_state" where
  "init w = \<lparr>finished = Map.empty, world = w, trace = []\<rparr>"

text \<open>
  \<^verbatim>\<open>run(...names)\<close> (lines 128-170) with a fresh \<^verbatim>\<open>finished\<close> map, in the world \<open>w\<close>.
  The final state is returned next to the result, for the statements below.
\<close>

definition run ::
  "nat \<Rightarrow> 'w registry \<Rightarrow> string list \<Rightarrow> 'w \<Rightarrow> ((error + result) \<times> 'w run_state) option" where
  "run n reg names w = run_names (run' n reg) reg names (init w)"

subsection \<open>Notions of the statements\<close>

text \<open>
  The tasks that the dependency patterns \<open>nms\<close> of the task \<open>t\<close> resolve to, in the order
  in which \<^verbatim>\<open>_run\<close> meets them; a pattern that does not resolve gives none.
\<close>

definition resolved_list :: "'w registry \<Rightarrow> 'w Task \<Rightarrow> string list \<Rightarrow> 'w Task list" where
  "resolved_list reg t nms =
     concat (map (\<lambda>nm. case resolve_task reg nm (Some t) of Inl e \<Rightarrow> [] | Inr ds \<Rightarrow> ds) nms)"

definition resolved_deps :: "'w registry \<Rightarrow> 'w Task \<Rightarrow> 'w Task list" where
  "resolved_deps reg t = resolved_list reg t (deps t)"

text \<open>
  The resolved dependency relation of a registry: from the name of a registered task to
  the names of the tasks its patterns resolve to.
\<close>

definition deps_rel :: "'w registry \<Rightarrow> (string \<times> string) set" where
  "deps_rel reg = {(name t, name d) | t d. t \<in> set reg \<and> d \<in> set (resolved_deps reg t)}"

text \<open>
  The part of \<^verbatim>\<open>_run\<close> after the loops (lines 145-157), as a function of the failed flag
  and the state the loops end in, and its own last part, which stores and reports the
  Result (lines 151-157); \<open>run'_miss\<close> below says that \<open>run'\<close> is the loops followed by
  \<open>finish_task\<close>.
\<close>

definition store_result :: "'w Task \<Rightarrow> result \<Rightarrow> 'w run_state \<Rightarrow> (error + result) \<times> 'w run_state" where
  "store_result t r s2 =
     (let s3 = s2\<lparr>finished := (finished s2)(name t \<mapsto> r)\<rparr>
      in case r of
           Success v \<Rightarrow> (Inr r, s3)
         | Failure e \<Rightarrow>
             (case show_failure e s3 of
                Inl x \<Rightarrow> (Inl x, s3)
              | Inr s4 \<Rightarrow> (Inr r, s4)))"

definition finish_task :: "'w Task \<Rightarrow> bool \<Rightarrow> 'w run_state \<Rightarrow> (error + result) \<times> 'w run_state" where
  "finish_task t failed s1 =
     (case (if \<not> failed then exec_task t s1
            else (Inr (failure (BuildError (name t) (task_failed_message (name t)))), s1)) of
        (Inl e, s2) \<Rightarrow> (Inl e, s2)
      | (Inr r, s2) \<Rightarrow> store_result t r s2)"

text \<open>
  \<open>edges_into reg B c\<close>: every name in \<open>B\<close> is the name of a registered task with a
  resolved dependency named in \<open>B\<close> or named \<open>c\<close>. With \<open>c\<close> the task that is called, \<open>B\<close>
  is a set of tasks each waiting for one of the others or for the callee.
\<close>

definition edges_into :: "'w registry \<Rightarrow> string set \<Rightarrow> string \<Rightarrow> bool" where
  "edges_into reg B c =
     (\<forall>b \<in> B. \<exists>u \<in> set reg. name u = b \<and> (\<exists>d \<in> set (resolved_deps reg u). name d \<in> insert c B))"

text \<open>
  The trace has an action call for cached tasks only, and one at most for each.
\<close>

definition invoked_once :: "'w run_state \<Rightarrow> bool" where
  "invoked_once s =
     (\<forall>n. count_list (trace s) (Invoked n) \<le> (if finished s n = None then 0 else 1))"

text \<open>
  The requested names all resolve, to the tasks \<open>ts\<close> in the order in which \<^verbatim>\<open>run\<close> meets
  them.
\<close>

fun resolved_names :: "'w registry \<Rightarrow> string list \<Rightarrow> 'w Task list option" where
  "resolved_names reg [] = Some []"
| "resolved_names reg (nm # nms) =
     (case resolve_task reg nm None of
        Inl e \<Rightarrow> None
      | Inr ts \<Rightarrow>
          (case resolved_names reg nms of
             None \<Rightarrow> None
           | Some rest \<Rightarrow> Some (ts @ rest)))"

text \<open>
  The tasks \<open>ts\<close> are executed one after the other from the state \<open>s\<close>, each call
  returns a Success, and the last one ends in the state that is returned.
\<close>

fun succeed_all ::
  "('w Task \<Rightarrow> 'w run_state \<Rightarrow> ((error + result) \<times> 'w run_state) option) \<Rightarrow>
   'w Task list \<Rightarrow> 'w run_state \<Rightarrow> 'w run_state option" where
  "succeed_all rec [] s = Some s"
| "succeed_all rec (t # ts) s =
     (case rec t s of
        Some (Inr (Success v), s') \<Rightarrow> succeed_all rec ts s'
      | _ \<Rightarrow> None)"

text \<open>
  An action has its declared type \<^verbatim>\<open>Fn<T>\<close> when it never returns a bare value.
\<close>

definition typed_fn :: "('w \<Rightarrow> completion \<times> 'w) \<Rightarrow> bool" where
  "typed_fn f = (\<forall>w v. fst (f w) \<noteq> Returns_value (Bare v))"

definition typed_registry :: "'w registry \<Rightarrow> bool" where
  "typed_registry reg = (\<forall>t \<in> set reg. \<forall>f. fn t = Some f \<longrightarrow> typed_fn f)"

text \<open>
  The Failures of an action carry an error: it neither throws or rejects with
  \<^verbatim>\<open>undefined\<close> or \<^verbatim>\<open>null\<close> nor returns a Failure of one of them (the field of a Failure
  is declared an \<^verbatim>\<open>Error\<close>).
\<close>

definition error_fn :: "('w \<Rightarrow> completion \<times> 'w) \<Rightarrow> bool" where
  "error_fn f =
     (\<forall>w. fst (f w) \<noteq> Throws Nullish \<and> fst (f w) \<noteq> Returns_result (Failure Nullish))"

definition error_registry :: "'w registry \<Rightarrow> bool" where
  "error_registry reg = (\<forall>t \<in> set reg. \<forall>f. fn t = Some f \<longrightarrow> error_fn f)"

text \<open>
  The world keeps a list of the action calls, read by \<open>calls\<close>: every action of the
  registry adds the name of its task to the list, once, whatever else it does. Nothing
  but an action changes the world, so the list tells how often each action was applied.
\<close>

definition records_calls :: "('w \<Rightarrow> string list) \<Rightarrow> 'w registry \<Rightarrow> bool" where
  "records_calls calls reg =
     (\<forall>t \<in> set reg. \<forall>f w. fn t = Some f \<longrightarrow> calls (snd (f w)) = calls w @ [name t])"

text \<open>
  Every registry has such a version: its world paired with the list, each action
  extended by the entry.
\<close>

definition recording :: "'w Task \<Rightarrow> ('w \<times> string list) Task" where
  "recording t =
     \<lparr>name = name t, deps = deps t,
      fn = map_option (\<lambda>f (w, l). (fst (f w), (snd (f w), l @ [name t]))) (fn t)\<rparr>"

text \<open>
  Since the world \<open>w0\<close>, the list has grown by one entry of a name for each call event of
  that name in the trace.
\<close>

definition calls_logged :: "('w \<Rightarrow> string list) \<Rightarrow> 'w \<Rightarrow> 'w run_state \<Rightarrow> bool" where
  "calls_logged calls w0 s =
     (\<forall>n. count_list (calls (world s)) n =
          count_list (calls w0) n + count_list (trace s) (Invoked n))"

text \<open>
  The events about the task named \<open>n\<close>, and what they may be, in order, for a task
  with the cache entry \<open>c\<close>: nothing without an entry; with the entry \<open>r\<close>, nothing when
  \<open>r\<close> is the Failure made for a failed dependency, or the one line of a task without
  action when \<open>r\<close> is the Success of \<^verbatim>\<open>undefined\<close>, or the start, the call and the finish
  tagged with the outcome.
\<close>

fun about :: "string \<Rightarrow> event \<Rightarrow> bool" where
  "about n (Starting m) = (m = n)"
| "about n (Finished m) = (m = n)"
| "about n (Completed m ok) = (m = n)"
| "about n (Invoked m) = (m = n)"
| "about n (Failure_detail e) = False"

definition lifecycle :: "string \<Rightarrow> result option \<Rightarrow> event list \<Rightarrow> bool" where
  "lifecycle n c evs =
     (case c of
        None \<Rightarrow> evs = []
      | Some r \<Rightarrow>
          evs = [] \<and> r = Failure (BuildError n (task_failed_message n)) \<or>
          evs = [Finished n] \<and> r = Success Undefined \<or>
          evs = [Starting n, Invoked n, Completed n (is_Success r)])"

text \<open>
  What \<^verbatim>\<open>_run\<close> reports for a Result \<open>r\<close> it has computed (lines 153-155).
\<close>

fun detail :: "result \<Rightarrow> event list" where
  "detail (Success v) = []"
| "detail (Failure e) = [Failure_detail e]"

text \<open>
  The state of the reporter matches the cache: the events about each name are a
  lifecycle of its cache entry, there are as many failure details of an error as cached
  Failures of it, and only tasks with an action have a start event.
\<close>

definition reported :: "'w registry \<Rightarrow> 'w run_state \<Rightarrow> bool" where
  "reported reg s =
     ((\<forall>n. lifecycle n (finished s n) (filter (about n) (trace s))) \<and>
      finite (dom (finished s)) \<and>
      (\<forall>e. count_list (trace s) (Failure_detail e) = card {n. finished s n = Some (Failure e)}) \<and>
      (\<forall>n. Starting n \<in> set (trace s) \<longrightarrow> (\<exists>t \<in> set reg. name t = n \<and> fn t \<noteq> None)))"

subsection \<open>Example registries and states\<close>

text \<open>The world of the examples counts the action calls.\<close>

definition act_ok :: "nat \<Rightarrow> completion \<times> nat" where
  "act_ok w = (Returns_value Undefined, Suc w)"

definition act_boom :: "nat \<Rightarrow> completion \<times> nat" where
  "act_boom w = (Throws (JsError ''Error'' ''boom''), Suc w)"

definition act_bare :: "nat \<Rightarrow> completion \<times> nat" where
  "act_bare w = (Returns_value (Bare ''42''), Suc w)"

definition act_result :: "result \<Rightarrow> nat \<Rightarrow> completion \<times> nat" where
  "act_result r w = (Returns_result r, Suc w)"

definition mk_task :: "string \<Rightarrow> string list \<Rightarrow> (nat \<Rightarrow> completion \<times> nat) option \<Rightarrow> nat Task" where
  "mk_task nm ds f = \<lparr>name = nm, deps = ds, fn = f\<rparr>"

definition boom :: error where
  "boom = JsError ''Error'' ''boom''"

definition build_registry :: "nat registry" where
  "build_registry =
     [mk_task ''build:js'' [] (Some act_ok), mk_task ''build:css'' [] (Some act_ok),
      mk_task ''lint:js'' [] (Some act_ok)]"

definition ghost_registry :: "nat registry" where
  "ghost_registry = [mk_task ''T'' [''ghost''] (Some act_ok)]"

definition colon_registry :: "nat registry" where
  "colon_registry = [mk_task ''x:a'' [] None, mk_task ''y:a:b'' [] None]"

definition min_registry :: "nat registry" where
  "min_registry = [mk_task ''build:js'' [] None, mk_task ''build:js:min'' [] None]"

definition diamond_registry :: "nat registry" where
  "diamond_registry =
     [mk_task ''shared'' [] (Some act_ok), mk_task ''a'' [''shared''] (Some act_ok),
      mk_task ''b'' [''shared''] (Some act_ok), mk_task ''top'' [''a'', ''b''] None]"


definition top_registry :: "nat registry" where
  "top_registry =
     [mk_task ''ok'' [] (Some act_ok), mk_task ''first:x'' [] None,
      mk_task ''bad:x'' [] (Some act_boom), mk_task ''later:x'' [] (Some act_ok),
      mk_task ''ok2'' [] (Some act_ok)]"

definition cycle_registry :: "nat registry" where
  "cycle_registry =
     [mk_task ''a'' [''b''] (Some act_ok), mk_task ''b'' [''a''] (Some act_ok)]"

definition shared_done :: "nat run_state" where
  "shared_done =
     \<lparr>finished = [''shared'' \<mapsto> Success Undefined], world = 1,
      trace = [Starting ''shared'', Invoked ''shared'', Completed ''shared'' True]\<rparr>"

definition a_done :: "nat run_state" where
  "a_done =
     \<lparr>finished = [''shared'' \<mapsto> Success Undefined, ''a'' \<mapsto> Success Undefined], world = 2,
      trace = [Starting ''shared'', Invoked ''shared'', Completed ''shared'' True,
               Starting ''a'', Invoked ''a'', Completed ''a'' True]\<rparr>"

definition deps_done :: "nat run_state" where
  "deps_done =
     \<lparr>finished = [''shared'' \<mapsto> Success Undefined, ''a'' \<mapsto> Success Undefined,
                  ''b'' \<mapsto> Success Undefined],
      world = 3,
      trace = [Starting ''shared'', Invoked ''shared'', Completed ''shared'' True,
               Starting ''a'', Invoked ''a'', Completed ''a'' True,
               Starting ''b'', Invoked ''b'', Completed ''b'' True]\<rparr>"

definition diamond_done :: "nat run_state" where
  "diamond_done =
     \<lparr>finished = [''shared'' \<mapsto> Success Undefined, ''a'' \<mapsto> Success Undefined,
                  ''b'' \<mapsto> Success Undefined, ''top'' \<mapsto> Success Undefined],
      world = 3,
      trace = [Starting ''shared'', Invoked ''shared'', Completed ''shared'' True,
               Starting ''a'', Invoked ''a'', Completed ''a'' True,
               Starting ''b'', Invoked ''b'', Completed ''b'' True, Finished ''top'']\<rparr>"


definition ok_done :: "nat run_state" where
  "ok_done =
     \<lparr>finished = [''ok'' \<mapsto> Success Undefined], world = 1,
      trace = [Starting ''ok'', Invoked ''ok'', Completed ''ok'' True]\<rparr>"

definition first_done :: "nat run_state" where
  "first_done =
     \<lparr>finished = [''ok'' \<mapsto> Success Undefined, ''first:x'' \<mapsto> Success Undefined], world = 1,
      trace = [Starting ''ok'', Invoked ''ok'', Completed ''ok'' True, Finished ''first:x'']\<rparr>"

definition bad_done :: "nat run_state" where
  "bad_done =
     \<lparr>finished = [''ok'' \<mapsto> Success Undefined, ''first:x'' \<mapsto> Success Undefined,
                  ''bad:x'' \<mapsto> Failure boom], world = 2,
      trace = [Starting ''ok'', Invoked ''ok'', Completed ''ok'' True, Finished ''first:x'',
               Starting ''bad:x'', Invoked ''bad:x'', Completed ''bad:x'' False,
               Failure_detail boom]\<rparr>"

text \<open>
  An action that succeeds only when another action has run before it, and two tasks
  requested in this order.
\<close>

definition act_after :: "nat \<Rightarrow> completion \<times> nat" where
  "act_after w = (if 0 < w then Returns_value Undefined else Throws boom, Suc w)"

definition order_registry :: "nat registry" where
  "order_registry = [mk_task ''a'' [] (Some act_ok), mk_task ''b'' [] (Some act_after)]"

definition order_done :: "nat run_state" where
  "order_done =
     \<lparr>finished = [''a'' \<mapsto> Success Undefined, ''b'' \<mapsto> Success Undefined], world = 2,
      trace = [Starting ''a'', Invoked ''a'', Completed ''a'' True,
               Starting ''b'', Invoked ''b'', Completed ''b'' True]\<rparr>"

text \<open>
  Tasks whose world is the list of the action calls: the action completes as given and
  adds the name of its task to the list.
\<close>

definition rec_task :: "string \<Rightarrow> string list \<Rightarrow> completion option \<Rightarrow> string list Task" where
  "rec_task nm ds c = \<lparr>name = nm, deps = ds, fn = map_option (\<lambda>c w. (c, w @ [nm])) c\<rparr>"

definition report_registry :: "string list registry" where
  "report_registry =
     [rec_task ''A'' [] (Some (Throws boom)), rec_task ''B'' [] (Some (Returns_value Undefined)),
      rec_task ''G'' [] None,
      rec_task ''P'' [''A'', ''B'', ''G'', ''A''] (Some (Returns_value Undefined))]"

definition a_failed :: "string list run_state" where
  "a_failed =
     \<lparr>finished = [''A'' \<mapsto> Failure boom], world = [''A''],
      trace = [Starting ''A'', Invoked ''A'', Completed ''A'' False, Failure_detail boom]\<rparr>"

definition report_final :: "string list run_state" where
  "report_final =
     \<lparr>finished = [''A'' \<mapsto> Failure boom, ''B'' \<mapsto> Success Undefined,
                  ''G'' \<mapsto> Success Undefined,
                  ''P'' \<mapsto> Failure (BuildError ''P'' (''task '' @ quoted ''P'' @ '' failed''))],
      world = [''A'', ''B''],
      trace = [Starting ''A'', Invoked ''A'', Completed ''A'' False, Failure_detail boom,
               Starting ''B'', Invoked ''B'', Completed ''B'' True, Finished ''G'',
               Failure_detail (BuildError ''P'' (''task '' @ quoted ''P'' @ '' failed''))]\<rparr>"

definition bare_registry :: "nat registry" where
  "bare_registry = [mk_task ''a'' [] (Some act_bare)]"

section \<open>The registry\<close>

text \<open>
  Registration keeps one task per name, which the statements about \<^verbatim>\<open>run\<close> below assume,
  and keeps the order of first registration.
\<close>

lemma tasks_get_name: "tasks_get reg nm = Some t \<Longrightarrow> name t = nm \<and> t \<in> set reg"
  unfolding tasks_get_def by (induction reg) (auto split: if_splits)

lemma tasks_has_iff: "tasks_has reg nm \<longleftrightarrow> nm \<in> name ` set reg"
  unfolding tasks_has_def tasks_get_def by (induction reg) auto

lemma tasks_get_distinct:
  "distinct (map name reg) \<Longrightarrow> t \<in> set reg \<Longrightarrow> tasks_get reg (name t) = Some t"
  unfolding tasks_get_def by (induction reg) (auto simp: rev_image_eqI)

lemma distinct_name_eq:
  "distinct (map name reg) \<Longrightarrow> u \<in> set reg \<Longrightarrow> t \<in> set reg \<Longrightarrow> name u = name t \<Longrightarrow> u = t"
  by (meson distinct_map inj_onD)

lemma tasks_set_names:
  "tasks_has reg (name t) \<Longrightarrow> map name (tasks_set reg t) = map name reg"
  by (simp add: tasks_set_def)

lemma tasks_set_distinct:
  "distinct (map name reg) \<Longrightarrow> distinct (map name (tasks_set reg t))"
  by (cases "tasks_has reg (name t)") (auto simp: tasks_set_names, auto simp: tasks_set_def tasks_has_iff)

lemma task_distinct:
  "distinct (map name reg) \<Longrightarrow> distinct (map name (task reg nm ds f))"
  by (cases ds) (simp_all add: task_def tasks_set_distinct)

lemma task_names_task:
  "task_names (task reg nm ds f) =
     (if nm \<in> set (task_names reg) then task_names reg else task_names reg @ [nm])"
  by (cases ds) (auto simp: task_names_def task_def tasks_set_def tasks_has_iff)

lemma build_registry_registered:
  "build_registry =
     task (task (task [] ''build:js'' (Inr act_ok) None) ''build:css'' (Inr act_ok) None)
       ''lint:js'' (Inr act_ok) None"
  by (simp add: build_registry_def mk_task_def task_def tasks_set_def tasks_has_def tasks_get_def)

section \<open>The resolver\<close>

lemma split_on_nonempty: "split_on c s \<noteq> []"
  by (induction s) (auto split: list.splits)

lemma split_on_no_sep: "c \<notin> set s \<Longrightarrow> split_on c s = [s]"
  by (induction s) auto

lemma split_on_first_sep: "c \<notin> set p \<Longrightarrow> split_on c (p @ c # r) = p # split_on c r"
  by (induction p) auto

lemma split_on_hd_takeWhile: "hd (split_on c s) = takeWhile (\<lambda>x. x \<noteq> c) s"
  by (induction s) (auto split: list.splits simp: split_on_nonempty)

lemma split_name_no_colon: "CHR '':'' \<notin> set nm \<Longrightarrow> split_name nm = (Some nm, None)"
  by (simp add: split_name_def js_split_def split_on_no_sep)

lemma split_name_colon:
  assumes "CHR '':'' \<notin> set p"
  shows "split_name (p @ CHR '':'' # r) = (Some p, Some (takeWhile (\<lambda>x. x \<noteq> CHR '':'') r))"
proof -
  obtain q qs where q: "split_on (CHR '':'') r = q # qs"
    using split_on_nonempty[of "CHR '':''" r] by (cases "split_on (CHR '':'') r") auto
  then have "q = takeWhile (\<lambda>x. x \<noteq> CHR '':'') r"
    using split_on_hd_takeWhile[of "CHR '':''" r] by simp
  with q assms show ?thesis
    by (simp add: split_name_def js_split_def split_on_first_sep)
qed

lemma endsWith_iff: "endsWith s x \<longleftrightarrow> (\<exists>p. s = p @ x)"
proof
  assume "endsWith s x"
  then have "s = take (length s - length x) s @ x"
    by (metis append_take_drop_id endsWith_def)
  then show "\<exists>p. s = p @ x" ..
next
  assume "\<exists>p. s = p @ x"
  then show "endsWith s x" by (auto simp: endsWith_def)
qed

lemma resolve_wildcard:
  assumes "CHR '':'' \<notin> set sfx"
  shows "resolve_task reg (''*:'' @ sfx) parent =
         Inr (filter (\<lambda>t. \<exists>p. name t = p @ '':'' @ sfx) reg)"
proof -
  have "split_name (''*'' @ CHR '':'' # sfx) = (Some ''*'', Some (takeWhile (\<lambda>x. x \<noteq> CHR '':'') sfx))"
    by (rule split_name_colon) simp
  moreover have "takeWhile (\<lambda>x. x \<noteq> CHR '':'') sfx = sfx"
    using assms by (auto simp: takeWhile_eq_all_conv)
  ultimately show ?thesis
    by (simp add: resolve_task_def endsWith_iff)
qed

lemma resolve_unknown:
  assumes "fst (split_name nm) \<noteq> Some ''*''" and "\<not> tasks_has reg nm"
  shows "resolve_task reg nm parent = Inl (BuildError ''build'' (unknown_task_message nm parent))"
  using assms by (auto simp: resolve_task_def split: prod.splits)

lemma resolve_registered:
  assumes "distinct (map name reg)" and "t \<in> set reg" and "fst (split_name (name t)) \<noteq> Some ''*''"
  shows "resolve_task reg (name t) parent = Inr [t]"
  using assms tasks_get_distinct[OF assms(1,2)]
  by (auto simp: resolve_task_def tasks_has_def split: prod.splits)

lemma resolve_in_registry: "resolve_task reg nm parent = Inr ds \<Longrightarrow> set ds \<subseteq> set reg"
  by (auto simp: resolve_task_def split: prod.splits if_splits option.splits dest: tasks_get_name)

lemma resolved_list_Cons:
  "resolve_task reg nm (Some t) = Inr ds \<Longrightarrow> resolved_list reg t (nm # nms) = ds @ resolved_list reg t nms"
  by (simp add: resolved_list_def)

lemma resolved_list_in_registry: "set (resolved_list reg t nms) \<subseteq> set reg"
  by (auto simp: resolved_list_def split: sum.splits dest: resolve_in_registry[OF sym])

lemma deps_relI:
  "t \<in> set reg \<Longrightarrow> d \<in> set (resolved_deps reg t) \<Longrightarrow> (name t, name d) \<in> deps_rel reg"
  unfolding deps_rel_def by blast

lemma finite_deps_rel: "finite (deps_rel reg)"
proof -
  have "deps_rel reg \<subseteq> (name ` set reg) \<times> (name ` set reg)"
    unfolding deps_rel_def resolved_deps_def using resolved_list_in_registry by fastforce
  then show ?thesis by (rule finite_subset) simp
qed

text \<open>
  Unfolding these evaluates the resolver and the runner on the examples.
\<close>

lemmas eval_resolve =
  resolve_task_def split_name_def js_split_def endsWith_def tasks_has_def tasks_get_def
  unknown_task_message_def cyan_def quoted_def mk_task_def

lemmas eval_run =
  run_def init_def exec_task_def log_def show_failure_def success_def failure_def
  act_ok_def act_boom_def act_bare_def act_result_def task_failed_message_def not_a_function_def

subsection \<open>Splitting a name\<close>

text \<open>
  Claim C3 takes the suffix of a name to be everything after its first colon
  (\<open>split_name_no_colon\<close> and \<open>split_name_colon\<close> say what line 88 computes: no suffix
  without a colon, else the text between the first colon and the second). At the pattern
  \<^verbatim>\<open>*:a:b\<close> the code differs from the claim: \<^verbatim>\<open>"*:a:b".split(":", 2)\<close> is \<^verbatim>\<open>["*", "a"]\<close>, so
  the suffix is \<^verbatim>\<open>a\<close> and not \<^verbatim>\<open>a:b\<close>, and the pattern resolves to the task \<^verbatim>\<open>x:a\<close>
  and not to \<^verbatim>\<open>y:a:b\<close>.
\<close>

theorem split_limit_drops_rest:
  "split_name ''*:a:b'' = (Some ''*'', Some ''a'') \<and>
   resolve_task colon_registry ''*:a:b'' None = Inr [mk_task ''x:a'' [] None]"
  by (simp add: colon_registry_def eval_resolve)

subsection \<open>Wildcards\<close>

text \<open>
  For a suffix without a colon the resolver does what claim C8 says. The pattern
  \<^verbatim>\<open>*:suffix\<close> never fails to resolve. It resolves to the registered tasks whose names
  end with \<^verbatim>\<open>:suffix\<close>, each once and in the order of the registry. When no name
  matches, the result is the empty sequence, and the pattern as a dependency changes
  neither the state nor the failed flag: the loop goes on with the next pattern.
\<close>

theorem wildcard_resolution:
  assumes "CHR '':'' \<notin> set sfx"
  shows "resolve_task reg (''*:'' @ sfx) parent =
           Inr (filter (\<lambda>t. \<exists>p. name t = p @ '':'' @ sfx) reg) \<and>
         (filter (\<lambda>t. \<exists>p. name t = p @ '':'' @ sfx) reg = [] \<longrightarrow>
            resolve_task reg (''*:'' @ sfx) parent = Inr [] \<and>
            run_deps rec reg t0 ((''*:'' @ sfx) # nms) failed s = run_deps rec reg t0 nms failed s)"
proof -
  have r: "resolve_task reg (''*:'' @ sfx) parent =
           Inr (filter (\<lambda>t. \<exists>p. name t = p @ '':'' @ sfx) reg)"
    by (rule resolve_wildcard[OF assms])
  have "resolve_task reg (''*:'' @ sfx) (Some t0) =
           Inr (filter (\<lambda>t. \<exists>p. name t = p @ '':'' @ sfx) reg)"
    by (rule resolve_wildcard[OF assms])
  then show ?thesis using r by simp
qed

text \<open>
  The statement at the registry \<^verbatim>\<open>build:js\<close>, \<^verbatim>\<open>build:css\<close>, \<^verbatim>\<open>lint:js\<close>, for the
  patterns \<^verbatim>\<open>*:js\<close> and \<^verbatim>\<open>*:missing\<close>.
\<close>

theorem wildcard_resolution_witness:
  "CHR '':'' \<notin> set ''js'' \<and>
   resolve_task build_registry ''*:js'' None =
     Inr [mk_task ''build:js'' [] (Some act_ok), mk_task ''lint:js'' [] (Some act_ok)] \<and>
   CHR '':'' \<notin> set ''missing'' \<and>
   filter (\<lambda>t. \<exists>p. name t = p @ '':'' @ ''missing'') build_registry = [] \<and>
   resolve_task build_registry ''*:missing'' None = Inr [] \<and>
   run_deps (run' 0 build_registry) build_registry (mk_task ''all'' [''*:missing''] None)
     [''*:missing''] False (init 0) = Some (Inr False, init 0)"
proof -
  have h1: "CHR '':'' \<notin> set ''js''" by simp
  have h2: "CHR '':'' \<notin> set ''missing''" by simp
  have h3: "filter (\<lambda>t. \<exists>p. name t = p @ '':'' @ ''missing'') build_registry = []"
    unfolding endsWith_iff[symmetric] by (simp add: build_registry_def mk_task_def endsWith_def)
  have e: "filter (\<lambda>t. \<exists>p. name t = p @ '':'' @ ''js'') build_registry =
           [mk_task ''build:js'' [] (Some act_ok), mk_task ''lint:js'' [] (Some act_ok)]"
    unfolding endsWith_iff[symmetric] by (simp add: build_registry_def mk_task_def endsWith_def)
  show ?thesis
    using h1 h2 h3 e
      wildcard_resolution[OF h1, of build_registry None]
      wildcard_resolution[OF h2, of build_registry None "run' 0 build_registry"
        "mk_task ''all'' [''*:missing''] None" "[]" False "init 0"]
    by simp
qed

text \<open>
  Claim C8 says that a pattern \<^verbatim>\<open>*:suffix\<close> resolves to exactly the registered tasks
  whose names end with \<^verbatim>\<open>:suffix\<close>, in the order of the registry. For a suffix with a
  colon the code differs from the claim: the split of line 88 drops what follows the
  second colon of the pattern. With the tasks \<^verbatim>\<open>build:js\<close> and \<^verbatim>\<open>build:js:min\<close>
  registered, the pattern \<^verbatim>\<open>*:js:min\<close> resolves to \<^verbatim>\<open>build:js\<close>, whose name does not end
  with \<^verbatim>\<open>:js:min\<close>, and not to \<^verbatim>\<open>build:js:min\<close>, the one task whose name does.
\<close>

theorem wildcard_colon_suffix_counterexample:
  "resolve_task min_registry ''*:js:min'' None = Inr [mk_task ''build:js'' [] None] \<and>
   filter (\<lambda>t. endsWith (name t) '':js:min'') min_registry = [mk_task ''build:js:min'' [] None]"
  by (simp add: min_registry_def eval_resolve)

section \<open>Unknown names\<close>

lemma run_deps_append:
  "run_deps rec reg t (xs @ ys) f s =
     (case run_deps rec reg t xs f s of
        None \<Rightarrow> None
      | Some (Inl e, s') \<Rightarrow> Some (Inl e, s')
      | Some (Inr f', s') \<Rightarrow> run_deps rec reg t ys f' s')"
  by (induction xs arbitrary: f s) (auto split: sum.splits option.splits prod.splits)

text \<open>
  Claim C1, as the code has it. A requested name that is not a wildcard and is not
  registered makes \<^verbatim>\<open>run\<close> throw: the generator \<^verbatim>\<open>resolve_task\<close> throws a \<open>BuildError\<close>
  of component \<^verbatim>\<open>build\<close>, nothing between line 99 and the caller of \<^verbatim>\<open>run\<close> catches it,
  and no Result is returned. Its message is \<^verbatim>\<open>unknown task '<name>'\<close> and nothing more, so
  it names the unresolved name and no requesting task. Nothing has been executed,
  logged or stored when the name is the first one requested.
\<close>

theorem run_unknown_task_throws:
  assumes "fst (split_name nm) \<noteq> Some ''*''" and "\<not> tasks_has reg nm"
  shows "run n reg (nm # rest) w =
         Some (Inl (BuildError ''build'' (''unknown task '' @ quoted nm)), init w)"
  using resolve_unknown[OF assms, of None]
  by (simp add: run_def unknown_task_message_def cyan_def)

text \<open>The hypotheses of C1 hold for the name \<^verbatim>\<open>does-not-exist\<close> in a registry of three tasks.\<close>

theorem run_unknown_task_throws_witness:
  "fst (split_name ''does-not-exist'') \<noteq> Some ''*'' \<and>
   \<not> tasks_has build_registry ''does-not-exist'' \<and>
   run 1 build_registry [''does-not-exist'', ''build:js''] 0 =
     Some (Inl (BuildError ''build'' (''unknown task '' @ quoted ''does-not-exist'')), init 0)"
proof -
  have h1: "fst (split_name ''does-not-exist'') \<noteq> Some ''*''"
    by (simp add: split_name_def js_split_def)
  have h2: "\<not> tasks_has build_registry ''does-not-exist''"
    by (simp add: build_registry_def eval_resolve)
  show ?thesis
    using h1 h2 run_unknown_task_throws[OF h1 h2, of 1 "[''build:js'']" 0] by simp
qed

text \<open>
  C1 as stated fails: \<^verbatim>\<open>run("does-not-exist")\<close> does not return a Failure, it throws
  (\<open>Inl\<close>).
\<close>

theorem run_unknown_task_counterexample:
  "run 1 ([] :: nat registry) [''does-not-exist''] 0 =
     Some (Inl (BuildError ''build'' (''unknown task '' @ [CHR 0x27] @ ''does-not-exist'' @ [CHR 0x27])),
           \<lparr>finished = Map.empty, world = 0, trace = []\<rparr>)"
  by (simp add: run_def init_def eval_resolve)

text \<open>
  Claim C2, as the code has it. Let the task \<open>t\<close> have no cached Result, let the
  dependency patterns \<open>pre\<close> before \<open>ghost\<close> have been run normally, ending in the state
  \<open>s1\<close>, and let \<open>ghost\<close> be neither a wildcard nor registered. Then \<^verbatim>\<open>_run(t)\<close> throws the
  \<open>BuildError\<close> whose message names \<open>ghost\<close> and the task \<open>t\<close> that referred to it, and it
  throws it in the very state \<open>s1\<close>: no later pattern is attempted, \<^verbatim>\<open>show_failure\<close> is
  not called, and nothing is stored for \<open>t\<close> in \<^verbatim>\<open>finished\<close>.
\<close>

theorem unknown_dependency_throws:
  assumes "finished s (name t) = None"
    and "deps t = pre @ ghost # post"
    and "run_deps (run' n reg) reg t pre False s = Some (Inr f, s1)"
    and "fst (split_name ghost) \<noteq> Some ''*''" and "\<not> tasks_has reg ghost"
  shows "run' (Suc n) reg t s =
         Some (Inl (BuildError ''build''
           (''unknown task '' @ quoted ghost @ '' referenced from '' @ quoted (name t))), s1)"
  using assms resolve_unknown[OF assms(4,5), of "Some t"]
  by (simp add: run_deps_append unknown_task_message_def cyan_def)

text \<open>The hypotheses of C2 hold for a task \<^verbatim>\<open>T\<close> that depends on \<^verbatim>\<open>ghost\<close> alone.\<close>

theorem unknown_dependency_throws_witness:
  "finished (init 0) (name (mk_task ''T'' [''ghost''] (Some act_ok))) = None \<and>
   deps (mk_task ''T'' [''ghost''] (Some act_ok)) = [] @ ''ghost'' # [] \<and>
   run_deps (run' 0 ghost_registry) ghost_registry (mk_task ''T'' [''ghost''] (Some act_ok)) [] False (init 0)
     = Some (Inr False, init 0) \<and>
   fst (split_name ''ghost'') \<noteq> Some ''*'' \<and> \<not> tasks_has ghost_registry ''ghost'' \<and>
   run' (Suc 0) ghost_registry (mk_task ''T'' [''ghost''] (Some act_ok)) (init 0) =
     Some (Inl (BuildError ''build''
       (''unknown task '' @ quoted ''ghost'' @ '' referenced from '' @ quoted ''T'')), init 0)"
proof -
  let ?t = "mk_task ''T'' [''ghost''] (Some act_ok)"
  have h1: "finished (init 0) (name ?t) = None" by (simp add: init_def)
  have h2: "deps ?t = [] @ ''ghost'' # []" by (simp add: mk_task_def)
  have h3: "run_deps (run' 0 ghost_registry) ghost_registry ?t [] False (init 0) = Some (Inr False, init 0)"
    by simp
  have h4: "fst (split_name ''ghost'') \<noteq> Some ''*''" by (simp add: split_name_def js_split_def)
  have h5: "\<not> tasks_has ghost_registry ''ghost''" by (simp add: ghost_registry_def eval_resolve)
  have n: "name ?t = ''T''" by (simp add: mk_task_def)
  show ?thesis
    using h1 h2 h3 h4 h5 unknown_dependency_throws[OF h1 h2 h3 h4 h5] unfolding n by simp
qed

text \<open>
  C2 as stated fails: running \<^verbatim>\<open>T\<close> gives no Result but an exception that leaves
  \<^verbatim>\<open>run\<close>; the cache stays empty and nothing is reported.
\<close>

theorem unknown_dependency_counterexample:
  "run 1 ghost_registry [''T''] 0 =
     Some (Inl (BuildError ''build''
       (''unknown task '' @ [CHR 0x27] @ ''ghost'' @ [CHR 0x27] @
        '' referenced from '' @ [CHR 0x27] @ ''T'' @ [CHR 0x27])),
       \<lparr>finished = Map.empty, world = 0, trace = []\<rparr>)"
  by (simp add: run_def init_def ghost_registry_def eval_resolve)

section \<open>The executor\<close>

text \<open>
  Claim C4, as the code has it. For a task with an action: when the action throws or
  rejects with \<open>e\<close>, the Result is the Failure of \<open>e\<close> itself; when it returns nothing,
  the Result is the Success of \<^verbatim>\<open>undefined\<close>; when it returns a Result, that Result is
  returned unchanged.
\<close>

theorem exec_task_result:
  assumes "fn t = Some f"
  shows "(fst (f (world s)) = Throws e \<longrightarrow> fst (exec_task t s) = Inr (Failure e)) \<and>
         (fst (f (world s)) = Returns_value Undefined \<longrightarrow> fst (exec_task t s) = Inr (Success Undefined)) \<and>
         (fst (f (world s)) = Returns_result r \<longrightarrow> fst (exec_task t s) = Inr r)"
  using assms by (auto simp: exec_task_def log_def success_def failure_def Let_def split: prod.splits)

text \<open>The three cases of C4 at three actions.\<close>

theorem exec_task_result_witness:
  "fn (mk_task ''a'' [] (Some act_boom)) = Some act_boom \<and>
   fst (act_boom (world (init 0))) = Throws (JsError ''Error'' ''boom'') \<and>
   fst (exec_task (mk_task ''a'' [] (Some act_boom)) (init 0)) = Inr (Failure (JsError ''Error'' ''boom'')) \<and>
   fn (mk_task ''b'' [] (Some act_ok)) = Some act_ok \<and>
   fst (act_ok (world (init 0))) = Returns_value Undefined \<and>
   fst (exec_task (mk_task ''b'' [] (Some act_ok)) (init 0)) = Inr (Success Undefined) \<and>
   fn (mk_task ''c'' [] (Some (act_result (Success (Bare ''7''))))) = Some (act_result (Success (Bare ''7''))) \<and>
   fst (act_result (Success (Bare ''7'')) (world (init 0))) = Returns_result (Success (Bare ''7'')) \<and>
   fst (exec_task (mk_task ''c'' [] (Some (act_result (Success (Bare ''7''))))) (init 0)) = Inr (Success (Bare ''7''))"
proof -
  have a: "fn (mk_task ''a'' [] (Some act_boom)) = Some act_boom" by (simp add: mk_task_def)
  have b: "fn (mk_task ''b'' [] (Some act_ok)) = Some act_ok" by (simp add: mk_task_def)
  have c: "fn (mk_task ''c'' [] (Some (act_result (Success (Bare ''7''))))) = Some (act_result (Success (Bare ''7'')))"
    by (simp add: mk_task_def)
  have a': "fst (act_boom (world (init 0))) = Throws (JsError ''Error'' ''boom'')" by (simp add: act_boom_def)
  have b': "fst (act_ok (world (init 0))) = Returns_value Undefined" by (simp add: act_ok_def)
  have c': "fst (act_result (Success (Bare ''7'')) (world (init 0))) = Returns_result (Success (Bare ''7''))"
    by (simp add: act_result_def)
  show ?thesis
    using a b c a' b' c'
      exec_task_result[OF a, of "init 0" "JsError ''Error'' ''boom''" "Success Undefined"]
      exec_task_result[OF b, of "init 0" "JsError ''Error'' ''boom''" "Success Undefined"]
      exec_task_result[OF c, of "init 0" "JsError ''Error'' ''boom''" "Success (Bare ''7'')"]
    by simp
qed

text \<open>
  C4 as stated fails for a bare value, which the type of an action excludes: the
  value \<^verbatim>\<open>42\<close> is not wrapped into a Success; line 123 calls \<^verbatim>\<open>is_Success\<close> on it and
  \<^verbatim>\<open>exec_task\<close> throws a TypeError.
\<close>

theorem exec_task_bare_counterexample:
  "exec_task (mk_task ''a'' [] (Some act_bare)) \<lparr>finished = Map.empty, world = 0, trace = []\<rparr> =
     (Inl (JsError ''TypeError'' ''result.is_Success is not a function''),
      \<lparr>finished = Map.empty, world = 1, trace = [Starting ''a'', Invoked ''a'']\<rparr>)"
  by (simp add: exec_task_def mk_task_def act_bare_def log_def cyan_def not_a_function_def)

lemma exec_task_finished: "exec_task t s = (out, s') \<Longrightarrow> finished s' = finished s"
  by (auto simp: exec_task_def log_def Let_def
           split: option.splits prod.splits completion.splits jsvalue.splits)

lemma exec_task_invoked:
  "exec_task t s = (out, s') \<Longrightarrow>
   count_list (trace s') (Invoked n) =
     count_list (trace s) (Invoked n) + (if n = name t \<and> fn t \<noteq> None then 1 else 0)"
  by (auto simp: exec_task_def log_def Let_def
           split: option.splits prod.splits completion.splits jsvalue.splits)

lemma exec_task_trace:
  "exec_task t s = (Inr r, s') \<Longrightarrow>
   (fn t = None \<and> r = Success Undefined \<and> trace s' = trace s @ [Finished (name t)]) \<or>
   (fn t \<noteq> None \<and>
    trace s' = trace s @ [Starting (name t), Invoked (name t), Completed (name t) (is_Success r)])"
  by (auto simp: exec_task_def log_def Let_def cyan_def success_def failure_def
           split: option.splits prod.splits completion.splits jsvalue.splits)

lemma exec_task_world:
  "exec_task t s = (out, s') \<Longrightarrow>
   world s' = (case fn t of None \<Rightarrow> world s | Some f \<Rightarrow> snd (f (world s)))"
  by (auto simp: exec_task_def log_def Let_def
           split: option.splits prod.splits completion.splits jsvalue.splits)

lemma exec_task_typed:
  "fn t = None \<or> (\<exists>f. fn t = Some f \<and> typed_fn f) \<Longrightarrow> exec_task t s = (out, s') \<Longrightarrow> \<not> isl out"
  by (auto simp: exec_task_def typed_fn_def Let_def
           split: option.splits prod.splits completion.splits jsvalue.splits)
     (metis fst_conv)

lemma exec_task_error:
  "fn t = None \<or> (\<exists>f. fn t = Some f \<and> error_fn f) \<Longrightarrow> exec_task t s = (Inr r, s') \<Longrightarrow>
   r \<noteq> Failure Nullish"
  by (auto simp: exec_task_def error_fn_def Let_def success_def failure_def
           split: option.splits prod.splits completion.splits jsvalue.splits)
     (metis fst_conv)+

section \<open>The loops of the runner\<close>

text \<open>
  A call of \<open>run'\<close> either hits the cache or runs the loops and then \<open>finish_task\<close>.
  The rules below carry a property \<open>P\<close> of the state through the loops: \<open>P\<close> holds as
  long as the calls return, \<open>Q\<close> holds once one of them has thrown, and \<open>G\<close> holds of
  every task whose call returned.
\<close>

lemma run'_hit: "finished s (name t) = Some r \<Longrightarrow> run' (Suc n) reg t s = Some (Inr r, s)"
  by simp

lemma run'_miss:
  "finished s (name t) = None \<Longrightarrow>
   run' (Suc n) reg t s =
     (case run_deps (run' n reg) reg t (deps t) False s of
        None \<Rightarrow> None
      | Some (Inl e, s1) \<Rightarrow> Some (Inl e, s1)
      | Some (Inr failed, s1) \<Rightarrow> Some (finish_task t failed s1))"
  by (simp add: finish_task_def store_result_def Let_def
           split: option.splits sum.splits prod.splits result.splits)

lemma show_failure_cases:
  "(e = Nullish \<and> show_failure e s = Inl cannot_read_stack) \<or>
   (e \<noteq> Nullish \<and> show_failure e s = Inr (s\<lparr>trace := trace s @ [Failure_detail e]\<rparr>))"
  by (cases e) (simp_all add: show_failure_def log_def)

lemma store_result_cases:
  "store_result t r s2 = (out, s') \<Longrightarrow>
   (out = Inr r \<and> r \<noteq> Failure Nullish \<and>
    s' = s2\<lparr>finished := (finished s2)(name t \<mapsto> r), trace := trace s2 @ detail r\<rparr>) \<or>
   (out = Inl cannot_read_stack \<and> r = Failure Nullish \<and>
    s' = s2\<lparr>finished := (finished s2)(name t \<mapsto> r)\<rparr>)"
proof (cases r)
  case (Success v)
  then show "store_result t r s2 = (out, s') \<Longrightarrow> ?thesis"
    by (auto simp: store_result_def)
next
  case (Failure e)
  assume "store_result t r s2 = (out, s')"
  with Failure show ?thesis
    using show_failure_cases[of e "s2\<lparr>finished := (finished s2)(name t \<mapsto> r)\<rparr>"]
    by (auto simp: store_result_def)
qed

lemma finish_task_failed:
  "finish_task t True s1 =
     (Inr (Failure (BuildError (name t) (task_failed_message (name t)))),
      s1\<lparr>finished := (finished s1)(name t \<mapsto> Failure (BuildError (name t) (task_failed_message (name t)))),
         trace := trace s1 @ [Failure_detail (BuildError (name t) (task_failed_message (name t)))]\<rparr>)"
  by (simp add: finish_task_def store_result_def failure_def show_failure_def log_def)

lemma finish_task_cases:
  assumes "finish_task t f s1 = (out, s')"
  obtains (failed) "f" "out = Inr (Failure (BuildError (name t) (task_failed_message (name t))))"
      "s' = s1\<lparr>finished := (finished s1)(name t \<mapsto> Failure (BuildError (name t) (task_failed_message (name t)))),
         trace := trace s1 @ [Failure_detail (BuildError (name t) (task_failed_message (name t)))]\<rparr>"
    | (exec_throws) e where "\<not> f" "exec_task t s1 = (Inl e, s')" "out = Inl e"
    | (stored) r s2 where "\<not> f" "exec_task t s1 = (Inr r, s2)" "store_result t r s2 = (out, s')"
proof (cases f)
  case True
  with assms finish_task_failed[of t s1] show ?thesis by (auto intro: failed)
next
  case False
  obtain o2 s2 where e: "exec_task t s1 = (o2, s2)" by (cases "exec_task t s1")
  show ?thesis
  proof (cases o2)
    case (Inl x)
    with e False assms show ?thesis by (auto simp: finish_task_def intro: exec_throws)
  next
    case (Inr r)
    with e False assms show ?thesis by (auto simp: finish_task_def intro: stored)
  qed
qed

lemma finish_task_finished_other:
  assumes "finish_task t f s1 = (out, s')" and "b \<noteq> name t"
  shows "finished s' b = finished s1 b"
  using assms(1)
proof (cases rule: finish_task_cases)
  case failed
  with assms(2) show ?thesis by simp
next
  case (exec_throws e)
  then show ?thesis by (simp add: exec_task_finished)
next
  case (stored r s2)
  from store_result_cases[OF stored(3)] exec_task_finished[OF stored(2)] assms(2)
  show ?thesis by auto
qed

lemma finish_task_stores:
  assumes "finish_task t f s1 = (Inr r, s')"
  shows "finished s' (name t) = Some r"
  using assms
proof (cases rule: finish_task_cases)
  case failed
  then show ?thesis by simp
next
  case (exec_throws e)
  then show ?thesis by simp
next
  case (stored r' s2)
  from store_result_cases[OF stored(3)] show ?thesis by auto
qed

lemma finish_task_invoked:
  assumes "finish_task t f s1 = (out, s')"
  shows "count_list (trace s') (Invoked n) =
     count_list (trace s1) (Invoked n) + (if n = name t \<and> fn t \<noteq> None \<and> \<not> f then 1 else 0)"
  using assms
proof (cases rule: finish_task_cases)
  case failed
  then show ?thesis by simp
next
  case (exec_throws e)
  with exec_task_invoked[OF exec_throws(2), of n] show ?thesis by simp
next
  case (stored r s2)
  have "count_list (detail r) (Invoked n) = 0" by (cases r) simp_all
  with store_result_cases[OF stored(3)] exec_task_invoked[OF stored(2), of n] stored(1)
  show ?thesis by auto
qed

lemma run_resolved_rule:
  assumes step: "\<And>d s out s'. d \<in> set ds \<Longrightarrow> P s \<Longrightarrow> rec d s = Some (out, s') \<Longrightarrow>
                   (case out of Inl e \<Rightarrow> Q s' | Inr r \<Rightarrow> P s' \<and> G d)"
    and "P s" and "run_resolved rec ds f s = Some (out, s')"
  shows "case out of Inl e \<Rightarrow> Q s' | Inr f' \<Rightarrow> P s' \<and> (\<forall>d \<in> set ds. G d)"
  using assms
proof (induction ds arbitrary: f s)
  case Nil
  then show ?case by auto
next
  case (Cons d ds)
  from Cons.prems(3) obtain o1 s1 where r: "rec d s = Some (o1, s1)"
    by (auto split: option.splits)
  have st: "case o1 of Inl e \<Rightarrow> Q s1 | Inr r \<Rightarrow> P s1 \<and> G d"
    using Cons.prems(1)[OF _ Cons.prems(2) r] by simp
  show ?case
  proof (cases o1)
    case (Inl e)
    with r st Cons.prems(3) show ?thesis by auto
  next
    case (Inr r1)
    with r Cons.prems(3)
    have rest: "run_resolved rec ds (if is_Failure r1 then True else f) s1 = Some (out, s')"
      by simp
    have "case out of Inl e \<Rightarrow> Q s' | Inr f' \<Rightarrow> P s' \<and> (\<forall>d \<in> set ds. G d)"
      using Cons.IH[OF _ _ rest] Cons.prems(1) st Inr by auto
    with st Inr show ?thesis by (auto split: sum.splits)
  qed
qed

lemma run_deps_rule:
  assumes step: "\<And>d s out s'. d \<in> set (resolved_list reg t nms) \<Longrightarrow> P s \<Longrightarrow>
                   rec d s = Some (out, s') \<Longrightarrow>
                   (case out of Inl e \<Rightarrow> Q s' | Inr r \<Rightarrow> P s' \<and> G d)"
    and unres: "\<And>nm e s. nm \<in> set nms \<Longrightarrow> resolve_task reg nm (Some t) = Inl e \<Longrightarrow> P s \<Longrightarrow> Q s"
    and "P s" and "run_deps rec reg t nms f s = Some (out, s')"
  shows "case out of Inl e \<Rightarrow> Q s'
         | Inr f' \<Rightarrow> P s' \<and> (\<forall>d \<in> set (resolved_list reg t nms). G d) \<and>
                     (\<forall>nm \<in> set nms. \<exists>ds. resolve_task reg nm (Some t) = Inr ds)"
  using assms
proof (induction nms arbitrary: f s)
  case Nil
  then show ?case by (auto simp: resolved_list_def)
next
  case (Cons nm nms)
  show ?case
  proof (cases "resolve_task reg nm (Some t)")
    case (Inl e)
    with Cons.prems(4) have "out = Inl e" "s' = s" by auto
    with Cons.prems(2)[OF _ Inl Cons.prems(3)] show ?thesis by simp
  next
    case (Inr ds)
    note rl = resolved_list_Cons[OF Inr, of nms]
    from Cons.prems(4) Inr obtain o1 s1 where r: "run_resolved rec ds f s = Some (o1, s1)"
      by (auto split: option.splits)
    have st: "case o1 of Inl e \<Rightarrow> Q s1 | Inr f' \<Rightarrow> P s1 \<and> (\<forall>d \<in> set ds. G d)"
      by (rule run_resolved_rule[where rec = rec and P = P, OF _ Cons.prems(3) r])
         (use Cons.prems(1) rl in auto)
    show ?thesis
    proof (cases o1)
      case (Inl e)
      with r st Cons.prems(4) Inr show ?thesis by auto
    next
      case o1: (Inr f1)
      with r Cons.prems(4) Inr have rest: "run_deps rec reg t nms f1 s1 = Some (out, s')"
        by simp
      have ih: "case out of Inl e \<Rightarrow> Q s'
         | Inr f' \<Rightarrow> P s' \<and> (\<forall>d \<in> set (resolved_list reg t nms). G d) \<and>
                     (\<forall>nm \<in> set nms. \<exists>ds. resolve_task reg nm (Some t) = Inr ds)"
      proof (rule Cons.IH[OF _ _ _ rest])
        show "P s1" using st o1 by simp
      next
        fix d s out s'
        assume "d \<in> set (resolved_list reg t nms)" "P s" "rec d s = Some (out, s')"
        then show "case out of Inl e \<Rightarrow> Q s' | Inr r \<Rightarrow> P s' \<and> G d"
          using Cons.prems(1)[of d s out s'] rl by simp
      next
        fix nm' e s
        assume "nm' \<in> set nms" "resolve_task reg nm' (Some t) = Inl e" "P s"
        then show "Q s" using Cons.prems(2)[of nm' e s] by simp
      qed
      with st o1 Inr rl show ?thesis by (auto split: sum.splits)
    qed
  qed
qed

lemma run_matches_rule:
  assumes step: "\<And>t s out s'. t \<in> set ts \<Longrightarrow> P s \<Longrightarrow> rec t s = Some (out, s') \<Longrightarrow>
                   (case out of Inl e \<Rightarrow> Q s' | Inr r \<Rightarrow> P s')"
    and "P s" and "run_matches rec ts s = Some (out, s')"
  shows "case out of Inl e \<Rightarrow> Q s' | Inr r \<Rightarrow> P s'"
  using assms
proof (induction ts arbitrary: s)
  case Nil
  then show ?case by auto
next
  case (Cons t ts)
  from Cons.prems(3) obtain o1 s1 where r: "rec t s = Some (o1, s1)"
    by (auto split: option.splits)
  have st: "case o1 of Inl e \<Rightarrow> Q s1 | Inr r \<Rightarrow> P s1"
    using Cons.prems(1)[OF _ Cons.prems(2) r] by simp
  show ?case
  proof (cases o1)
    case (Inl e)
    with r st Cons.prems(3) show ?thesis by auto
  next
    case (Inr r1)
    show ?thesis
    proof (cases "is_Failure r1")
      case True
      with Inr r st Cons.prems(3) show ?thesis by auto
    next
      case False
      with Inr r Cons.prems(3) have rest: "run_matches rec ts s1 = Some (out, s')" by simp
      show ?thesis
      proof (rule Cons.IH[OF _ _ rest])
        show "P s1" using st Inr by simp
      next
        fix t' s out s'
        assume "t' \<in> set ts" "P s" "rec t' s = Some (out, s')"
        then show "case out of Inl e \<Rightarrow> Q s' | Inr r \<Rightarrow> P s'"
          using Cons.prems(1)[of t' s out s'] by simp
      qed
    qed
  qed
qed

lemma run_names_rule:
  assumes step: "\<And>t s out s'. t \<in> set reg \<Longrightarrow> P s \<Longrightarrow> rec t s = Some (out, s') \<Longrightarrow>
                   (case out of Inl e \<Rightarrow> Q s' | Inr r \<Rightarrow> P s')"
    and unres: "\<And>s. P s \<Longrightarrow> Q s"
    and "P s" and "run_names rec reg names s = Some (out, s')"
  shows "case out of Inl e \<Rightarrow> Q s' | Inr r \<Rightarrow> P s'"
  using assms(3,4)
proof (induction names arbitrary: s)
  case Nil
  then show ?case by auto
next
  case (Cons nm nms)
  show ?case
  proof (cases "resolve_task reg nm None")
    case (Inl e)
    with Cons.prems unres show ?thesis by auto
  next
    case (Inr ts)
    from Cons.prems(2) Inr obtain o1 s1 where r: "run_matches rec ts s = Some (o1, s1)"
      by (auto split: option.splits)
    have st: "case o1 of Inl e \<Rightarrow> Q s1 | Inr r \<Rightarrow> P s1"
      by (rule run_matches_rule[where rec = rec and P = P, OF _ Cons.prems(1) r])
         (use step resolve_in_registry[OF Inr] in auto)
    show ?thesis
    proof (cases o1)
      case (Inl e)
      with r st Cons.prems(2) Inr show ?thesis by auto
    next
      case o1: (Inr ro)
      show ?thesis
      proof (cases ro)
        case None
        with o1 r Cons.prems(2) Inr have "run_names rec reg nms s1 = Some (out, s')" by simp
        from Cons.IH[OF _ this] st o1 show ?thesis by simp
      next
        case (Some r1)
        with o1 r st Cons.prems(2) Inr show ?thesis by auto
      qed
    qed
  qed
qed

section \<open>The cache\<close>

lemma run'_stores: "run' k reg t s = Some (Inr r, s') \<Longrightarrow> finished s' (name t) = Some r"
proof (cases k)
  case 0
  then show "run' k reg t s = Some (Inr r, s') \<Longrightarrow> ?thesis" by simp
next
  case (Suc n)
  assume a: "run' k reg t s = Some (Inr r, s')"
  show ?thesis
  proof (cases "finished s (name t)")
    case None
    from a show ?thesis unfolding Suc run'_miss[OF None]
      by (auto split: option.splits sum.splits prod.splits dest: finish_task_stores)
  next
    case (Some r')
    with a Suc show ?thesis by simp
  qed
qed

lemma run'_keeps_cache:
  "finished s n = Some r \<Longrightarrow> run' k reg t s = Some (out, s') \<Longrightarrow> finished s' n = Some r"
proof (induction k arbitrary: t s out s')
  case 0
  then show ?case by simp
next
  case (Suc k)
  show ?case
  proof (cases "finished s (name t)")
    case (Some r')
    with Suc.prems show ?thesis by simp
  next
    case None
    with Suc.prems(1) have ne: "n \<noteq> name t" by auto
    from Suc.prems(2) obtain o1 s1 where
      loop: "run_deps (run' k reg) reg t (deps t) False s = Some (o1, s1)"
      unfolding run'_miss[OF None] by (auto split: option.splits)
    have inv: "case o1 of Inl e \<Rightarrow> finished s1 n = Some r
         | Inr f' \<Rightarrow> finished s1 n = Some r \<and> (\<forall>d \<in> set (resolved_list reg t (deps t)). True) \<and>
                     (\<forall>nm \<in> set (deps t). \<exists>ds. resolve_task reg nm (Some t) = Inr ds)"
      by (rule run_deps_rule[where P = "\<lambda>s. finished s n = Some r" and rec = "run' k reg",
            OF _ _ Suc.prems(1) loop])
         (auto split: sum.splits dest: Suc.IH)
    show ?thesis
    proof (cases o1)
      case (Inl e)
      with inv loop Suc.prems(2) show ?thesis unfolding run'_miss[OF None] by simp
    next
      case (Inr f)
      with loop Suc.prems(2) have "finish_task t f s1 = (out, s')"
        unfolding run'_miss[OF None] by simp
      from finish_task_finished_other[OF this ne] inv Inr show ?thesis by simp
    qed
  qed
qed



text \<open>
  A task that waits for the callee, directly or through other waiting tasks, gets no
  cache entry during the call; and a callee that is itself waiting does not return.
  So a task has no entry while its own dependencies run.
\<close>

lemma blocked_never_finishes:
  assumes dist: "distinct (map name reg)"
  shows "t \<in> set reg \<Longrightarrow> edges_into reg B (name t) \<Longrightarrow> \<forall>b \<in> B. finished s b = None \<Longrightarrow>
         run' k reg t s = Some (out, s') \<Longrightarrow>
         (\<forall>b \<in> B. finished s' b = None) \<and> (name t \<in> B \<longrightarrow> isl out)"
proof (induction k arbitrary: t B s out s')
  case 0
  then show ?case by simp
next
  case (Suc k)
  show ?case
  proof (cases "finished s (name t)")
    case (Some r)
    with Suc.prems show ?thesis by auto
  next
    case None
    let ?B = "insert (name t) B"
    let ?P = "\<lambda>s. \<forall>b \<in> ?B. finished s b = None"
    from Suc.prems(4) obtain o1 s1 where
      loop: "run_deps (run' k reg) reg t (deps t) False s = Some (o1, s1)"
      unfolding run'_miss[OF None] by (auto split: option.splits)
    have P0: "?P s" using None Suc.prems(3) by simp
    have step: "case out of Inl e \<Rightarrow> ?P s' | Inr r \<Rightarrow> ?P s' \<and> name d \<notin> ?B"
      if d: "d \<in> set (resolved_list reg t (deps t))" and P: "?P s"
        and r: "run' k reg d s = Some (out, s')" for d s out s'
    proof -
      have dreg: "d \<in> set reg" using d resolved_list_in_registry by blast
      have "edges_into reg ?B (name d)"
        unfolding edges_into_def
      proof
        fix b assume "b \<in> ?B"
        then consider "b = name t" | "b \<in> B" by auto
        then show "\<exists>u \<in> set reg. name u = b \<and>
                     (\<exists>d' \<in> set (resolved_deps reg u). name d' \<in> insert (name d) ?B)"
        proof cases
          case 1
          then show ?thesis using Suc.prems(1) d by (auto simp: resolved_deps_def)
        next
          case 2
          with Suc.prems(2) show ?thesis unfolding edges_into_def by fastforce
        qed
      qed
      from Suc.IH[OF dreg this P r] show ?thesis by (cases out) auto
    qed
    have inv: "case o1 of Inl e \<Rightarrow> ?P s1
         | Inr f' \<Rightarrow> ?P s1 \<and> (\<forall>d \<in> set (resolved_list reg t (deps t)). name d \<notin> ?B) \<and>
                     (\<forall>nm \<in> set (deps t). \<exists>ds. resolve_task reg nm (Some t) = Inr ds)"
      by (rule run_deps_rule[where P = ?P and Q = ?P and rec = "run' k reg", OF step _ P0 loop])
    show ?thesis
    proof (cases o1)
      case (Inl e)
      with inv loop Suc.prems(4) show ?thesis unfolding run'_miss[OF None] by auto
    next
      case (Inr f)
      with loop Suc.prems(4) have fin: "finish_task t f s1 = (out, s')"
        unfolding run'_miss[OF None] by simp
      have notin: "name t \<notin> B"
      proof
        assume "name t \<in> B"
        with Suc.prems(2) obtain u d where u: "u \<in> set reg" "name u = name t"
          and d: "d \<in> set (resolved_deps reg u)" "name d \<in> ?B"
          unfolding edges_into_def by blast
        from distinct_name_eq[OF dist u(1) Suc.prems(1) u(2)] have "u = t" .
        with d inv Inr show False by (auto simp: resolved_deps_def)
      qed
      have "\<forall>b \<in> B. finished s' b = None"
      proof
        fix b assume b: "b \<in> B"
        with notin have "b \<noteq> name t" by auto
        from finish_task_finished_other[OF fin this] inv Inr b show "finished s' b = None" by simp
      qed
      with notin show ?thesis by simp
    qed
  qed
qed

lemma deps_leave_task_uncached:
  assumes dist: "distinct (map name reg)" and t: "t \<in> set reg"
    and miss: "finished s (name t) = None"
    and loop: "run_deps (run' k reg) reg t (deps t) False s = Some (out, s1)"
  shows "finished s1 (name t) = None"
proof -
  let ?P = "\<lambda>s. \<forall>b \<in> {name t}. finished s b = None"
  have step: "case out of Inl e \<Rightarrow> ?P s' | Inr r \<Rightarrow> ?P s' \<and> True"
    if d: "d \<in> set (resolved_list reg t (deps t))" and P: "?P s"
      and r: "run' k reg d s = Some (out, s')" for d s out s'
  proof -
    have dreg: "d \<in> set reg" using d resolved_list_in_registry by blast
    have "edges_into reg {name t} (name d)"
      unfolding edges_into_def using t d by (auto simp: resolved_deps_def)
    from blocked_never_finishes[OF dist dreg this P r] show ?thesis by (cases out) auto
  qed
  have P0: "?P s" using miss by simp
  have "case out of Inl e \<Rightarrow> ?P s1
         | Inr f' \<Rightarrow> ?P s1 \<and> (\<forall>d \<in> set (resolved_list reg t (deps t)). True) \<and>
                     (\<forall>nm \<in> set (deps t). \<exists>ds. resolve_task reg nm (Some t) = Inr ds)"
    by (rule run_deps_rule[where P = ?P and Q = ?P and rec = "run' k reg" and G = "\<lambda>d. True",
          OF step _ P0 loop])
  then show ?thesis by (cases out) auto
qed

section \<open>Memoisation\<close>

lemma invoked_onceD:
  "invoked_once s \<Longrightarrow> count_list (trace s) (Invoked n) \<le> (if finished s n = None then 0 else 1)"
  unfolding invoked_once_def by blast

lemma invoked_once_le: "invoked_once s \<Longrightarrow> count_list (trace s) (Invoked n) \<le> 1"
  using invoked_onceD[of s n] by (simp split: if_splits)

lemma invoked_once_all: "invoked_once s \<Longrightarrow> \<forall>n. count_list (trace s) (Invoked n) \<le> 1"
  using invoked_once_le by blast

lemma invoked_once_init: "invoked_once (init w)"
  by (simp add: invoked_once_def init_def)

lemma finish_task_invoked_once:
  assumes "invoked_once s1" and "finished s1 (name t) = None" and "finish_task t f s1 = (out, s')"
  shows "case out of Inl e \<Rightarrow> \<forall>n. count_list (trace s') (Invoked n) \<le> 1 | Inr r \<Rightarrow> invoked_once s'"
proof (cases out)
  case (Inl e)
  have "count_list (trace s') (Invoked n) \<le> 1" for n
  proof (cases "n = name t")
    case True
    have "count_list (trace s1) (Invoked n) = 0"
      using invoked_onceD[OF assms(1), of n] assms(2) True by simp
    with finish_task_invoked[OF assms(3), of n] show ?thesis by simp
  next
    case False
    have "count_list (trace s1) (Invoked n) \<le> 1"
      using invoked_onceD[OF assms(1), of n] by (simp split: if_splits)
    with finish_task_invoked[OF assms(3), of n] False show ?thesis by simp
  qed
  with Inl show ?thesis by simp
next
  case (Inr r)
  have "count_list (trace s') (Invoked n) \<le> (if finished s' n = None then 0 else 1)" for n
  proof (cases "n = name t")
    case True
    have "count_list (trace s1) (Invoked n) = 0"
      using invoked_onceD[OF assms(1), of n] assms(2) True by simp
    moreover have "finished s' n = Some r"
      using finish_task_stores[of t f s1 r s'] assms(3) Inr True by simp
    ultimately show ?thesis using finish_task_invoked[OF assms(3), of n] by simp
  next
    case False
    have "finished s' n = finished s1 n"
      by (rule finish_task_finished_other[OF assms(3) False])
    with invoked_onceD[OF assms(1), of n] finish_task_invoked[OF assms(3), of n] False
    show ?thesis by simp
  qed
  with Inr show ?thesis by (simp add: invoked_once_def)
qed

lemma run'_invoked_once:
  assumes dist: "distinct (map name reg)"
  shows "t \<in> set reg \<Longrightarrow> invoked_once s \<Longrightarrow> run' k reg t s = Some (out, s') \<Longrightarrow>
         (case out of Inl e \<Rightarrow> \<forall>n. count_list (trace s') (Invoked n) \<le> 1 | Inr r \<Rightarrow> invoked_once s')"
proof (induction k arbitrary: t s out s')
  case 0
  then show ?case by simp
next
  case (Suc k)
  show ?case
  proof (cases "finished s (name t)")
    case (Some r)
    with Suc.prems show ?thesis by auto
  next
    case None
    let ?Q = "\<lambda>s::'a run_state. \<forall>n. count_list (trace s) (Invoked n) \<le> 1"
    from Suc.prems(3) obtain o1 s1 where
      loop: "run_deps (run' k reg) reg t (deps t) False s = Some (o1, s1)"
      unfolding run'_miss[OF None] by (auto split: option.splits)
    have step: "case out of Inl e \<Rightarrow> ?Q s' | Inr r \<Rightarrow> invoked_once s' \<and> True"
      if "d \<in> set (resolved_list reg t (deps t))" "invoked_once s" "run' k reg d s = Some (out, s')"
      for d s out s'
    proof -
      have "d \<in> set reg" using that(1) resolved_list_in_registry by blast
      from Suc.IH[OF this that(2,3)] show ?thesis by (cases out) simp_all
    qed
    have inv: "case o1 of Inl e \<Rightarrow> ?Q s1
         | Inr f' \<Rightarrow> invoked_once s1 \<and> (\<forall>d \<in> set (resolved_list reg t (deps t)). True) \<and>
                     (\<forall>nm \<in> set (deps t). \<exists>ds. resolve_task reg nm (Some t) = Inr ds)"
      proof (rule run_deps_rule[where P = invoked_once and Q = ?Q and rec = "run' k reg"
            and G = "\<lambda>d. True", OF _ _ Suc.prems(2) loop])
      fix d s out s'
      assume "d \<in> set (resolved_list reg t (deps t))" "invoked_once s"
        "run' k reg d s = Some (out, s')"
      then show "case out of Inl e \<Rightarrow> ?Q s' | Inr r \<Rightarrow> invoked_once s' \<and> True"
        by (rule step)
    next
      fix nm e and s :: "'a run_state"
      assume "invoked_once s"
      then show "?Q s" by (rule invoked_once_all)
    qed
    show ?thesis
    proof (cases o1)
      case (Inl e)
      with inv loop Suc.prems(3) show ?thesis unfolding run'_miss[OF None] by auto
    next
      case (Inr f)
      with loop Suc.prems(3) have fin: "finish_task t f s1 = (out, s')"
        unfolding run'_miss[OF None] by simp
      have un: "finished s1 (name t) = None"
        using deps_leave_task_uncached[OF dist Suc.prems(1) None loop] .
      have "invoked_once s1" using inv Inr by simp
      then show ?thesis using un fin by (rule finish_task_invoked_once)
    qed
  qed
qed


lemma run_invoked_once:
  assumes dist: "distinct (map name reg)" and r: "run k reg names w = Some (out, s')"
  shows "count_list (trace s') (Invoked n) \<le> 1"
proof -
  let ?Q = "\<lambda>s::'a run_state. \<forall>n. count_list (trace s) (Invoked n) \<le> 1"
  have "case out of Inl e \<Rightarrow> ?Q s' | Inr r \<Rightarrow> invoked_once s'"
  proof (rule run_names_rule[where P = invoked_once and Q = ?Q and rec = "run' k reg",
          OF _ _ invoked_once_init r[unfolded run_def]])
    fix t s out s'
    assume "t \<in> set reg" "invoked_once s" "run' k reg t s = Some (out, s')"
    then show "case out of Inl e \<Rightarrow> ?Q s' | Inr r \<Rightarrow> invoked_once s'"
      by (rule run'_invoked_once[OF dist])
  next
    fix s :: "'a run_state"
    assume "invoked_once s"
    then show "?Q s" by (rule invoked_once_all)
  qed
  then show ?thesis using invoked_once_all[of s'] by (cases out) simp_all
qed

text \<open>
  Claim C5. In a registry with one task per name: whatever one call of \<^verbatim>\<open>run\<close> ends with
  (a Result or an exception), the action of every task has been called at most once in
  it. And once \<^verbatim>\<open>_run(t)\<close> has returned the Result \<open>r\<close>, after any later call of \<^verbatim>\<open>_run\<close>
  a further call \<^verbatim>\<open>_run(t)\<close> returns the same \<open>r\<close> and leaves the state as it is: nothing
  is executed again and nothing is reported again.
\<close>

theorem memoization:
  assumes "distinct (map name reg)"
  shows "(run k reg names w = Some (out, s') \<longrightarrow> count_list (trace s') (Invoked n) \<le> 1) \<and>
         (run' i reg t s = Some (Inr r, s1) \<longrightarrow> run' j reg u s1 = Some (out2, s2) \<longrightarrow>
            run' (Suc m) reg t s2 = Some (Inr r, s2))"
proof (intro conjI impI)
  assume "run k reg names w = Some (out, s')"
  with assms show "count_list (trace s') (Invoked n) \<le> 1" by (rule run_invoked_once)
next
  assume "run' i reg t s = Some (Inr r, s1)"
  then have "finished s1 (name t) = Some r" by (rule run'_stores)
  moreover assume "run' j reg u s1 = Some (out2, s2)"
  ultimately have "finished s2 (name t) = Some r" by (rule run'_keeps_cache)
  then show "run' (Suc m) reg t s2 = Some (Inr r, s2)" by (rule run'_hit)
qed

text \<open>
  C5 at a diamond: \<^verbatim>\<open>top\<close> depends on \<^verbatim>\<open>a\<close> and \<^verbatim>\<open>b\<close>, which both depend on \<^verbatim>\<open>shared\<close>.
\<close>

theorem memoization_witness:
  "distinct (map name diamond_registry) \<and>
   run 3 diamond_registry [''top''] 0 = Some (Inr (Success Undefined), diamond_done) \<and>
   count_list (trace diamond_done) (Invoked ''shared'') \<le> 1 \<and>
   run' 1 diamond_registry (mk_task ''shared'' [] (Some act_ok)) (init 0) =
     Some (Inr (Success Undefined), shared_done) \<and>
   run' 2 diamond_registry (mk_task ''a'' [''shared''] (Some act_ok)) shared_done =
     Some (Inr (Success Undefined), a_done) \<and>
   run' (Suc 0) diamond_registry (mk_task ''shared'' [] (Some act_ok)) a_done =
     Some (Inr (Success Undefined), a_done)"
proof -
  have d: "distinct (map name diamond_registry)"
    by (simp add: diamond_registry_def mk_task_def)
  have r: "run 3 diamond_registry [''top''] 0 = Some (Inr (Success Undefined), diamond_done)"
    by (simp add: diamond_registry_def diamond_done_def eval_run eval_resolve numeral_3_eq_3)
  have r1: "run' 1 diamond_registry (mk_task ''shared'' [] (Some act_ok)) (init 0) =
            Some (Inr (Success Undefined), shared_done)"
    by (simp add: diamond_registry_def shared_done_def eval_run eval_resolve)
  have r2: "run' 2 diamond_registry (mk_task ''a'' [''shared''] (Some act_ok)) shared_done =
            Some (Inr (Success Undefined), a_done)"
    by (simp add: diamond_registry_def shared_done_def a_done_def eval_run eval_resolve
          numeral_2_eq_2)
  note m = memoization[OF d, where k = 3 and names = "[''top'']" and w = 0
      and out = "Inr (Success Undefined)" and s' = diamond_done and n = "''shared''"
      and i = 1 and t = "mk_task ''shared'' [] (Some act_ok)" and s = "init 0"
      and r = "Success Undefined" and ?s1.0 = shared_done and j = 2
      and u = "mk_task ''a'' [''shared''] (Some act_ok)" and ?out2.0 = "Inr (Success Undefined)"
      and ?s2.0 = a_done and m = 0]
  have c1: "count_list (trace diamond_done) (Invoked ''shared'') \<le> 1"
    by (rule m[THEN conjunct1, THEN mp, OF r])
  have c2: "run' (Suc 0) diamond_registry (mk_task ''shared'' [] (Some act_ok)) a_done =
            Some (Inr (Success Undefined), a_done)"
    by (rule m[THEN conjunct2, THEN mp, THEN mp, OF r1 r2])
  from d r c1 r1 r2 c2 show ?thesis by (intro conjI)
qed

section \<open>A failed dependency\<close>





section \<open>The top-level loop\<close>

lemma run_matches_failure: "run_matches rec ts s = Some (Inr (Some r), s') \<Longrightarrow> is_Failure r"
  by (induction ts arbitrary: s) (auto split: option.splits sum.splits prod.splits if_splits)

lemma run_matches_append:
  "run_matches rec (xs @ ys) s =
     (case run_matches rec xs s of
        None \<Rightarrow> None
      | Some (Inl e, s') \<Rightarrow> Some (Inl e, s')
      | Some (Inr (Some r), s') \<Rightarrow> Some (Inr (Some r), s')
      | Some (Inr None, s') \<Rightarrow> run_matches rec ys s')"
  by (induction xs arbitrary: s) (auto split: option.splits sum.splits prod.splits)

lemma run_names_append:
  "run_names rec reg (xs @ ys) s =
     (case run_names rec reg xs s of
        None \<Rightarrow> None
      | Some (Inl e, s') \<Rightarrow> Some (Inl e, s')
      | Some (Inr r, s') \<Rightarrow> if is_Failure r then Some (Inr r, s') else run_names rec reg ys s')"
proof (induction xs arbitrary: s)
  case Nil
  then show ?case by (simp add: success_def)
next
  case (Cons x xs)
  then show ?case
    by (auto split: option.splits sum.splits prod.splits dest: run_matches_failure)
qed

lemma succeed_all_append:
  "succeed_all rec (xs @ ys) s =
     (case succeed_all rec xs s of None \<Rightarrow> None | Some s1 \<Rightarrow> succeed_all rec ys s1)"
  by (induction xs arbitrary: s)
     (auto split: option.splits sum.splits prod.splits result.splits)

lemma run_matches_succeed_all:
  "succeed_all rec ts s = Some s' \<Longrightarrow> run_matches rec ts s = Some (Inr None, s')"
  by (induction ts arbitrary: s)
     (auto split: option.splits sum.splits prod.splits result.splits)

lemma run_names_succeed_all:
  "resolved_names reg names = Some ts \<Longrightarrow> succeed_all rec ts s = Some s' \<Longrightarrow>
   run_names rec reg names s = Some (Inr (Success Undefined), s')"
proof (induction names arbitrary: ts s)
  case Nil
  then show ?case by (simp add: success_def)
next
  case (Cons nm nms)
  from Cons.prems(1) obtain ts1 rest where res: "resolve_task reg nm None = Inr ts1"
    and rest: "resolved_names reg nms = Some rest" and ts: "ts = ts1 @ rest"
    by (auto split: sum.splits option.splits)
  from Cons.prems(2) obtain s1 where a: "succeed_all rec ts1 s = Some s1"
    and b: "succeed_all rec rest s1 = Some s'"
    unfolding ts succeed_all_append by (auto split: option.splits)
  from run_matches_succeed_all[OF a] Cons.IH[OF rest b] res show ?case by simp
qed

text \<open>
  Conversely, a Success returned by the loops is the Success of \<^verbatim>\<open>undefined\<close>, all names
  have resolved and all their tasks have succeeded.
\<close>

lemma run_matches_None_succeed_all:
  "run_matches rec ts s = Some (Inr None, s') \<Longrightarrow> succeed_all rec ts s = Some s'"
proof (induction ts arbitrary: s)
  case Nil
  then show ?case by simp
next
  case (Cons t ts)
  from Cons.prems obtain r s1 where r: "rec t s = Some (Inr r, s1)" and nf: "\<not> is_Failure r"
    and rest: "run_matches rec ts s1 = Some (Inr None, s')"
    by (auto split: option.splits sum.splits prod.splits if_splits)
  from nf obtain v where "r = Success v" by (cases r) auto
  with r Cons.IH[OF rest] show ?case by simp
qed

lemma run_names_Success:
  "run_names rec reg names s = Some (Inr (Success v), s') \<Longrightarrow>
   v = Undefined \<and> (\<exists>ts. resolved_names reg names = Some ts \<and> succeed_all rec ts s = Some s')"
proof (induction names arbitrary: s)
  case Nil
  then show ?case by (simp add: success_def)
next
  case (Cons nm nms)
  from Cons.prems obtain ts1 where res: "resolve_task reg nm None = Inr ts1"
    by (auto split: sum.splits)
  from Cons.prems res obtain s1 where m: "run_matches rec ts1 s = Some (Inr None, s1)"
    and rest: "run_names rec reg nms s1 = Some (Inr (Success v), s')"
    by (auto split: option.splits sum.splits prod.splits dest: run_matches_failure)
  from Cons.IH[OF rest] obtain ts where v: "v = Undefined"
    and ts: "resolved_names reg nms = Some ts" "succeed_all rec ts s1 = Some s'" by blast
  from run_matches_None_succeed_all[OF m] ts res v show ?case
    by (simp add: succeed_all_append)
qed

text \<open>
  Claim C7. First part: let the names \<open>pre\<close> have been run without a Failure, let the
  next name \<open>nm\<close> resolve to the tasks \<open>ts1\<close>, \<open>t\<close>, \<open>ts2\<close> in this order, let the
  tasks \<open>ts1\<close> have been run without a Failure, and let \<^verbatim>\<open>_run(t)\<close> return a Failure in
  the state \<open>s3\<close>. Then \<^verbatim>\<open>run\<close> returns that Failure, in the state \<open>s3\<close>: neither the
  later matches \<open>ts2\<close> nor the later names \<open>post\<close> are attempted. Second part: let every
  requested name resolve, to the tasks \<open>ts\<close> in all, and let every one of them succeed
  when it is executed in its turn, from the initial state on, the last one ending in the
  state \<open>s'\<close>. Then \<^verbatim>\<open>run\<close> returns the Success of \<^verbatim>\<open>undefined\<close>, in the state \<open>s'\<close>.
\<close>

theorem top_level_short_circuit:
  "(run k reg pre w = Some (Inr (Success v), s1) \<longrightarrow>
    resolve_task reg nm None = Inr (ts1 @ t # ts2) \<longrightarrow>
    run_matches (run' k reg) ts1 s1 = Some (Inr None, s2) \<longrightarrow>
    run' k reg t s2 = Some (Inr (Failure e), s3) \<longrightarrow>
    run k reg (pre @ nm # post) w = Some (Inr (Failure e), s3)) \<and>
   (resolved_names reg names = Some ts \<longrightarrow>
    succeed_all (run' k reg) ts (init w) = Some s' \<longrightarrow>
    run k reg names w = Some (Inr (Success Undefined), s'))"
proof (intro conjI impI)
  assume "run k reg pre w = Some (Inr (Success v), s1)"
    and "resolve_task reg nm None = Inr (ts1 @ t # ts2)"
    and "run_matches (run' k reg) ts1 s1 = Some (Inr None, s2)"
    and "run' k reg t s2 = Some (Inr (Failure e), s3)"
  then show "run k reg (pre @ nm # post) w = Some (Inr (Failure e), s3)"
    by (simp add: run_def run_names_append run_matches_append)
next
  assume "resolved_names reg names = Some ts"
    and "succeed_all (run' k reg) ts (init w) = Some s'"
  then show "run k reg names w = Some (Inr (Success Undefined), s')"
    unfolding run_def by (rule run_names_succeed_all)
qed

text \<open>
  C7 at \<^verbatim>\<open>run("ok", "*:x", "ok2")\<close>, where the second match of \<^verbatim>\<open>*:x\<close> fails, and at
  \<^verbatim>\<open>run("a", "b")\<close>, where the action of \<^verbatim>\<open>b\<close> succeeds only after the one of \<^verbatim>\<open>a\<close> has
  run.
\<close>

theorem top_level_short_circuit_witness:
  "run 1 top_registry [''ok''] 0 = Some (Inr (Success Undefined), ok_done) \<and>
   resolve_task top_registry ''*:x'' None =
     Inr ([mk_task ''first:x'' [] None] @ mk_task ''bad:x'' [] (Some act_boom) #
          [mk_task ''later:x'' [] (Some act_ok)]) \<and>
   run_matches (run' 1 top_registry) [mk_task ''first:x'' [] None] ok_done =
     Some (Inr None, first_done) \<and>
   run' 1 top_registry (mk_task ''bad:x'' [] (Some act_boom)) first_done =
     Some (Inr (Failure boom), bad_done) \<and>
   run 1 top_registry ([''ok''] @ ''*:x'' # [''ok2'']) 0 = Some (Inr (Failure boom), bad_done) \<and>
   resolved_names order_registry [''a'', ''b''] =
     Some [mk_task ''a'' [] (Some act_ok), mk_task ''b'' [] (Some act_after)] \<and>
   succeed_all (run' 1 order_registry)
     [mk_task ''a'' [] (Some act_ok), mk_task ''b'' [] (Some act_after)] (init 0) = Some order_done \<and>
   run 1 order_registry [''a'', ''b''] 0 = Some (Inr (Success Undefined), order_done)"
proof -
  have a1: "run 1 top_registry [''ok''] 0 = Some (Inr (Success Undefined), ok_done)"
    by (simp add: top_registry_def ok_done_def eval_run eval_resolve)
  have a2: "resolve_task top_registry ''*:x'' None =
     Inr ([mk_task ''first:x'' [] None] @ mk_task ''bad:x'' [] (Some act_boom) #
          [mk_task ''later:x'' [] (Some act_ok)])"
    by (simp add: top_registry_def eval_resolve)
  have a3: "run_matches (run' 1 top_registry) [mk_task ''first:x'' [] None] ok_done =
     Some (Inr None, first_done)"
    by (simp add: top_registry_def ok_done_def first_done_def eval_run eval_resolve)
  have a4: "run' 1 top_registry (mk_task ''bad:x'' [] (Some act_boom)) first_done =
     Some (Inr (Failure boom), bad_done)"
    by (simp add: top_registry_def first_done_def bad_done_def boom_def eval_run eval_resolve)
  have b1: "resolved_names order_registry [''a'', ''b''] =
     Some [mk_task ''a'' [] (Some act_ok), mk_task ''b'' [] (Some act_after)]"
    by (simp add: order_registry_def eval_resolve)
  have b2: "succeed_all (run' 1 order_registry)
     [mk_task ''a'' [] (Some act_ok), mk_task ''b'' [] (Some act_after)] (init 0) = Some order_done"
    by (simp add: order_registry_def order_done_def act_after_def eval_run eval_resolve)
  note c = top_level_short_circuit[where k = 1 and reg = top_registry and pre = "[''ok'']"
      and w = 0 and v = Undefined and ?s1.0 = ok_done and nm = "''*:x''"
      and ?ts1.0 = "[mk_task ''first:x'' [] None]" and t = "mk_task ''bad:x'' [] (Some act_boom)"
      and ?ts2.0 = "[mk_task ''later:x'' [] (Some act_ok)]" and ?s2.0 = first_done
      and e = boom and ?s3.0 = bad_done and post = "[''ok2'']"]
  note c' = top_level_short_circuit[where k = 1 and reg = order_registry and w = 0
      and names = "[''a'', ''b'']"
      and ts = "[mk_task ''a'' [] (Some act_ok), mk_task ''b'' [] (Some act_after)]"
      and s' = order_done]
  have ca: "run 1 top_registry ([''ok''] @ ''*:x'' # [''ok2'']) 0 = Some (Inr (Failure boom), bad_done)"
    by (rule c[THEN conjunct1, THEN mp, THEN mp, THEN mp, THEN mp, OF a1 a2 a3 a4])
  have cb: "run 1 order_registry [''a'', ''b''] 0 = Some (Inr (Success Undefined), order_done)"
    by (rule c'[THEN conjunct2, THEN mp, THEN mp, OF b1 b2])
  from a1 a2 a3 a4 ca b1 b2 cb show ?thesis by (intro conjI)
qed

section \<open>What is reported\<close>

lemma finish_task_trace:
  assumes "finish_task t f s1 = (Inr r, s')"
  shows "finished s' = (finished s1)(name t \<mapsto> r) \<and>
         (\<exists>body. trace s' = trace s1 @ body @ detail r \<and>
            (body = [] \<and> r = Failure (BuildError (name t) (task_failed_message (name t))) \<or>
             body = [Finished (name t)] \<and> r = Success Undefined \<and> fn t = None \<or>
             body = [Starting (name t), Invoked (name t), Completed (name t) (is_Success r)] \<and>
             fn t \<noteq> None))"
  using assms
proof (cases rule: finish_task_cases)
  case failed
  then show ?thesis by simp
next
  case (exec_throws e)
  then show ?thesis by simp
next
  case (stored r' s2)
  from store_result_cases[OF stored(3)] have r': "r' = r"
    and s': "s' = s2\<lparr>finished := (finished s2)(name t \<mapsto> r), trace := trace s2 @ detail r\<rparr>"
    by auto
  from exec_task_trace[OF stored(2)[unfolded r']] exec_task_finished[OF stored(2)] s'
  show ?thesis by auto
qed

lemma finish_task_returns:
  assumes "fn t = None \<or> (\<exists>f. fn t = Some f \<and> typed_fn f \<and> error_fn f)"
    and "finish_task t f s1 = (out, s')"
  shows "\<not> isl out"
  using assms(2)
proof (cases rule: finish_task_cases)
  case failed
  then show ?thesis by simp
next
  case (exec_throws e)
  with exec_task_typed[OF _ exec_throws(2)] assms(1) show ?thesis by auto
next
  case (stored r s2)
  have "r \<noteq> Failure Nullish" using exec_task_error[OF _ stored(2)] assms(1) by auto
  with store_result_cases[OF stored(3)] show ?thesis by auto
qed

lemma finish_task_calls:
  assumes "\<forall>f w. fn t = Some f \<longrightarrow> calls (snd (f w)) = calls w @ [name t]"
    and "finish_task t f s1 = (out, s')"
  shows "count_list (calls (world s')) n =
     count_list (calls (world s1)) n + (if n = name t \<and> fn t \<noteq> None \<and> \<not> f then 1 else 0)"
proof -
  have ex: "count_list (calls (world s2)) n =
      count_list (calls (world s1)) n + (if n = name t \<and> fn t \<noteq> None then 1 else 0)"
    if "exec_task t s1 = (o2, s2)" for o2 s2
    using exec_task_world[OF that] assms(1) by (cases "fn t") auto
  from assms(2) show ?thesis
  proof (cases rule: finish_task_cases)
    case failed
    then show ?thesis by simp
  next
    case (exec_throws e)
    with ex[OF exec_throws(2)] show ?thesis by simp
  next
    case (stored r s2)
    from store_result_cases[OF stored(3)] have "world s' = world s2" by auto
    with ex[OF stored(2)] stored(1) show ?thesis by simp
  qed
qed

lemma about_detail: "filter (about n) (detail r) = []"
  by (cases r) simp_all

lemma count_detail: "count_list (detail r) (Failure_detail e) = (if r = Failure e then 1 else 0)"
  by (cases r) simp_all

lemma failure_set_update:
  assumes "m k = None"
  shows "{n. (m(k \<mapsto> r)) n = Some (Failure e)} =
         (if r = Failure e then insert k {n. m n = Some (Failure e)} else {n. m n = Some (Failure e)})"
  using assms by auto

lemma finish_task_reported:
  assumes rep: "reported reg s1" and un: "finished s1 (name t) = None" and t: "t \<in> set reg"
    and fin: "finish_task t f s1 = (Inr r, s')"
  shows "reported reg s'"
proof -
  from finish_task_trace[OF fin] obtain body where
    f': "finished s' = (finished s1)(name t \<mapsto> r)"
    and tr: "trace s' = trace s1 @ body @ detail r"
    and body: "body = [] \<and> r = Failure (BuildError (name t) (task_failed_message (name t))) \<or>
               body = [Finished (name t)] \<and> r = Success Undefined \<and> fn t = None \<or>
               body = [Starting (name t), Invoked (name t), Completed (name t) (is_Success r)] \<and>
               fn t \<noteq> None"
    by blast
  from rep have L: "\<And>n. lifecycle n (finished s1 n) (filter (about n) (trace s1))"
    and F: "finite (dom (finished s1))"
    and C: "\<And>e. count_list (trace s1) (Failure_detail e) = card {n. finished s1 n = Some (Failure e)}"
    and A: "\<And>n. Starting n \<in> set (trace s1) \<Longrightarrow> \<exists>t \<in> set reg. name t = n \<and> fn t \<noteq> None"
    unfolding reported_def by blast+
  have L': "lifecycle n (finished s' n) (filter (about n) (trace s'))" for n
  proof (cases "n = name t")
    case True
    have "filter (about n) (trace s1) = []"
      using L[of n] un True by (simp add: lifecycle_def)
    moreover have "filter (about n) body = body" using body True by auto
    ultimately have "filter (about n) (trace s') = body" by (simp add: tr about_detail)
    with body True f' show ?thesis by (auto simp: lifecycle_def)
  next
    case False
    have "filter (about n) body = []" using body False by auto
    then have "filter (about n) (trace s') = filter (about n) (trace s1)"
      by (simp add: tr about_detail)
    with L[of n] False f' show ?thesis by simp
  qed
  have F': "finite (dom (finished s'))" using F f' by simp
  have C': "count_list (trace s') (Failure_detail e) = card {n. finished s' n = Some (Failure e)}" for e
  proof -
    have b0: "count_list body (Failure_detail e) = 0" using body by auto
    have fs: "finite {n. finished s1 n = Some (Failure e)}"
      by (rule finite_subset[OF _ F]) auto
    have ni: "name t \<notin> {n. finished s1 n = Some (Failure e)}" using un by simp
    show ?thesis
      unfolding tr f' failure_set_update[of "finished s1" "name t", OF un]
      using b0 C[of e] fs ni by (simp add: count_detail)
  qed
  have A': "\<exists>u \<in> set reg. name u = n \<and> fn u \<noteq> None" if "Starting n \<in> set (trace s')" for n
  proof -
    from that have "Starting n \<in> set (trace s1) \<or> Starting n \<in> set body"
      unfolding tr by (cases r) auto
    then show ?thesis
    proof
      assume "Starting n \<in> set (trace s1)"
      then show ?thesis by (rule A)
    next
      assume "Starting n \<in> set body"
      with body have "n = name t" "fn t \<noteq> None" by auto
      with t show ?thesis by blast
    qed
  qed
  show ?thesis unfolding reported_def using L' F' C' A' by blast
qed

lemma reported_init: "reported reg (init w)"
  by (simp add: reported_def init_def lifecycle_def)

lemma run'_reported:
  assumes dist: "distinct (map name reg)" and ty: "typed_registry reg" and er: "error_registry reg"
  shows "t \<in> set reg \<Longrightarrow> reported reg s \<Longrightarrow> run' k reg t s = Some (out, s') \<Longrightarrow> reported reg s'"
proof (induction k arbitrary: t s out s')
  case 0
  then show ?case by simp
next
  case (Suc k)
  show ?case
  proof (cases "finished s (name t)")
    case (Some r)
    with Suc.prems show ?thesis by auto
  next
    case None
    from Suc.prems(3) obtain o1 s1 where
      loop: "run_deps (run' k reg) reg t (deps t) False s = Some (o1, s1)"
      unfolding run'_miss[OF None] by (auto split: option.splits)
    have inv: "case o1 of Inl e \<Rightarrow> reported reg s1
         | Inr f' \<Rightarrow> reported reg s1 \<and> (\<forall>d \<in> set (resolved_list reg t (deps t)). True) \<and>
                     (\<forall>nm \<in> set (deps t). \<exists>ds. resolve_task reg nm (Some t) = Inr ds)"
    proof (rule run_deps_rule[where P = "reported reg" and Q = "reported reg"
            and rec = "run' k reg" and G = "\<lambda>d. True", OF _ _ Suc.prems(2) loop])
      fix d s out s'
      assume d: "d \<in> set (resolved_list reg t (deps t))" and "reported reg s"
        "run' k reg d s = Some (out, s')"
      moreover have "d \<in> set reg" using d resolved_list_in_registry by blast
      ultimately have "reported reg s'" using Suc.IH by blast
      then show "case out of Inl e \<Rightarrow> reported reg s' | Inr r \<Rightarrow> reported reg s' \<and> True"
        by (cases out) simp_all
    qed
    show ?thesis
    proof (cases o1)
      case (Inl e)
      with inv loop Suc.prems(3) show ?thesis unfolding run'_miss[OF None] by auto
    next
      case (Inr f)
      with loop Suc.prems(3) have fin: "finish_task t f s1 = (out, s')"
        unfolding run'_miss[OF None] by simp
      have "fn t = None \<or> (\<exists>f. fn t = Some f \<and> typed_fn f \<and> error_fn f)"
        using ty er Suc.prems(1) unfolding typed_registry_def error_registry_def
        by (cases "fn t") auto
      from finish_task_returns[OF this fin] obtain r where out: "out = Inr r" by (cases out) auto
      have un: "finished s1 (name t) = None"
        by (rule deps_leave_task_uncached[OF dist Suc.prems(1) None loop])
      have "reported reg s1" using inv Inr by simp
      then show ?thesis using un Suc.prems(1) fin[unfolded out] by (rule finish_task_reported)
    qed
  qed
qed

lemma run_reported:
  assumes dist: "distinct (map name reg)" and ty: "typed_registry reg" and er: "error_registry reg"
    and r: "run k reg names w = Some (out, s')"
  shows "reported reg s'"
proof -
  have "case out of Inl e \<Rightarrow> reported reg s' | Inr r \<Rightarrow> reported reg s'"
  proof (rule run_names_rule[where P = "reported reg" and Q = "reported reg"
          and rec = "run' k reg", OF _ _ reported_init r[unfolded run_def]])
    fix t s out s'
    assume "t \<in> set reg" "reported reg s" "run' k reg t s = Some (out, s')"
    then have "reported reg s'" by (rule run'_reported[OF dist ty er])
    then show "case out of Inl e \<Rightarrow> reported reg s' | Inr r \<Rightarrow> reported reg s'"
      by (cases out) simp_all
  qed
  then show ?thesis by (cases out) simp_all
qed

text \<open>
  The list of calls in the world and the call events of the trace grow together, on
  every path through \<open>run'\<close>.
\<close>

lemma finish_task_calls_logged:
  assumes "records_calls calls reg" and "t \<in> set reg" and "calls_logged calls w0 s1"
    and "finish_task t f s1 = (out, s')"
  shows "calls_logged calls w0 s'"
proof -
  have rc: "\<forall>f w. fn t = Some f \<longrightarrow> calls (snd (f w)) = calls w @ [name t]"
    using assms(1,2) unfolding records_calls_def by blast
  show ?thesis
    unfolding calls_logged_def
  proof
    fix n
    from assms(3) have "count_list (calls (world s1)) n =
        count_list (calls w0) n + count_list (trace s1) (Invoked n)"
      unfolding calls_logged_def by blast
    with finish_task_calls[OF rc assms(4), of n] finish_task_invoked[OF assms(4), of n]
    show "count_list (calls (world s')) n =
        count_list (calls w0) n + count_list (trace s') (Invoked n)" by simp
  qed
qed

lemma run'_calls_logged:
  assumes rc: "records_calls calls reg"
  shows "t \<in> set reg \<Longrightarrow> calls_logged calls w0 s \<Longrightarrow> run' k reg t s = Some (out, s') \<Longrightarrow>
         calls_logged calls w0 s'"
proof (induction k arbitrary: t s out s')
  case 0
  then show ?case by simp
next
  case (Suc k)
  show ?case
  proof (cases "finished s (name t)")
    case (Some r)
    with Suc.prems show ?thesis by auto
  next
    case None
    from Suc.prems(3) obtain o1 s1 where
      loop: "run_deps (run' k reg) reg t (deps t) False s = Some (o1, s1)"
      unfolding run'_miss[OF None] by (auto split: option.splits)
    have inv: "case o1 of Inl e \<Rightarrow> calls_logged calls w0 s1
         | Inr f' \<Rightarrow> calls_logged calls w0 s1 \<and> (\<forall>d \<in> set (resolved_list reg t (deps t)). True) \<and>
                     (\<forall>nm \<in> set (deps t). \<exists>ds. resolve_task reg nm (Some t) = Inr ds)"
    proof (rule run_deps_rule[where P = "calls_logged calls w0" and Q = "calls_logged calls w0"
            and rec = "run' k reg" and G = "\<lambda>d. True", OF _ _ Suc.prems(2) loop])
      fix d s out s'
      assume d: "d \<in> set (resolved_list reg t (deps t))" and "calls_logged calls w0 s"
        "run' k reg d s = Some (out, s')"
      moreover have "d \<in> set reg" using d resolved_list_in_registry by blast
      ultimately have "calls_logged calls w0 s'" using Suc.IH by blast
      then show "case out of Inl e \<Rightarrow> calls_logged calls w0 s'
                 | Inr r \<Rightarrow> calls_logged calls w0 s' \<and> True"
        by (cases out) simp_all
    qed
    show ?thesis
    proof (cases o1)
      case (Inl e)
      with inv loop Suc.prems(3) show ?thesis unfolding run'_miss[OF None] by auto
    next
      case (Inr f)
      with loop Suc.prems(3) have fin: "finish_task t f s1 = (out, s')"
        unfolding run'_miss[OF None] by simp
      have "calls_logged calls w0 s1" using inv Inr by simp
      with rc Suc.prems(1) show ?thesis using fin by (rule finish_task_calls_logged)
    qed
  qed
qed

lemma run_calls_logged:
  assumes rc: "records_calls calls reg" and r: "run k reg names w = Some (out, s')"
  shows "calls_logged calls w s'"
proof -
  have i: "calls_logged calls w (init w)" by (simp add: calls_logged_def init_def)
  have "case out of Inl e \<Rightarrow> calls_logged calls w s' | Inr r \<Rightarrow> calls_logged calls w s'"
  proof (rule run_names_rule[where P = "calls_logged calls w" and Q = "calls_logged calls w"
          and rec = "run' k reg", OF _ _ i r[unfolded run_def]])
    fix t s out s'
    assume "t \<in> set reg" "calls_logged calls w s" "run' k reg t s = Some (out, s')"
    then have "calls_logged calls w s'" by (rule run'_calls_logged[OF rc])
    then show "case out of Inl e \<Rightarrow> calls_logged calls w s' | Inr r \<Rightarrow> calls_logged calls w s'"
      by (cases out) simp_all
  qed
  then show ?thesis by (cases out) simp_all
qed

text \<open>The version of a registry that records the calls has the properties assumed below.\<close>

lemma recording_registry:
  "records_calls snd (map recording reg) \<and>
   map name (map recording reg) = map name reg \<and>
   (typed_registry reg \<longrightarrow> typed_registry (map recording reg)) \<and>
   (error_registry reg \<longrightarrow> error_registry (map recording reg))"
  by (auto simp: records_calls_def recording_def typed_registry_def typed_fn_def
        error_registry_def error_fn_def split: prod.splits)

lemma count_list_filter: "count_list (filter P xs) x = (if P x then count_list xs x else 0)"
  by (induction xs) auto

lemma lifecycle_counts:
  assumes "lifecycle n c (filter (about n) tr)"
  shows "count_list tr (Starting n) = count_list tr (Invoked n) \<and>
         count_list tr (Completed n True) + count_list tr (Completed n False) =
           count_list tr (Invoked n)"
proof -
  let ?evs = "filter (about n) tr"
  have c: "count_list tr x = count_list ?evs x" if "about n x" for x
    using that by (simp add: count_list_filter)
  have "?evs = [] \<or> ?evs = [Finished n] \<or> (\<exists>b. ?evs = [Starting n, Invoked n, Completed n b])"
    using assms by (auto simp: lifecycle_def split: option.splits)
  then have "count_list ?evs (Starting n) = count_list ?evs (Invoked n) \<and>
         count_list ?evs (Completed n True) + count_list ?evs (Completed n False) =
           count_list ?evs (Invoked n)"
    by (elim disjE exE) auto
  then show ?thesis by (simp add: c)
qed


text \<open>
  Claim C9 says that every action call has one start and one finish event and every
  Failure of \<^verbatim>\<open>exec_task\<close> one failure-detail event. Two runs differ from it. An action
  that returns a bare value has a start event and no finish event: line 123 throws
  between the two.
\<close>

theorem reporter_events_bare_counterexample:
  "run 1 bare_registry [''a''] 0 =
     Some (Inl (JsError ''TypeError'' ''result.is_Success is not a function''),
           \<lparr>finished = Map.empty, world = 1, trace = [Starting ''a'', Invoked ''a'']\<rparr>) \<and>
   count_list [Starting ''a'', Invoked ''a''] (Starting ''a'') = 1 \<and>
   count_list [Starting ''a'', Invoked ''a''] (Completed ''a'' True) +
     count_list [Starting ''a'', Invoked ''a''] (Completed ''a'' False) = 0"
  by (simp add: bare_registry_def eval_run eval_resolve)

text \<open>
  An action that rejects with \<^verbatim>\<open>undefined\<close> has its Failure stored (line 151) and then
  no failure-detail event: \<^verbatim>\<open>show_failure\<close> throws at \<^verbatim>\<open>error.stack\<close> (line 59), and the
  TypeError leaves \<^verbatim>\<open>run\<close>.
\<close>

lemma show_failure_nullish_example:
  "run 1 [mk_task ''a'' [] (Some (\<lambda>w. (Throws Nullish, Suc w)))] [''a''] 0 =
     Some (Inl cannot_read_stack,
           \<lparr>finished = [''a'' \<mapsto> Failure Nullish], world = 1,
            trace = [Starting ''a'', Invoked ''a'', Completed ''a'' False]\<rparr>)"
  by (simp add: eval_run eval_resolve)

text \<open>
  Claim C9 for the other registries: one task per name, actions of their declared type
  (no bare value) whose Failures carry an error (neither \<^verbatim>\<open>undefined\<close> nor \<^verbatim>\<open>null\<close>). The
  action calls are counted where they happen, in the world: each action adds the name of
  its task to the list \<open>calls\<close> of the world. First part, on one call of \<^verbatim>\<open>run\<close>, however
  it ends: for every name \<open>n\<close> the list has grown by as many entries of \<open>n\<close> as there are
  start events of \<open>n\<close>, and by as many as there are finish events of \<open>n\<close> (tagged
  \<^verbatim>\<open>Finished\<close> or \<^verbatim>\<open>Failed\<close>); the events about \<open>n\<close> are none (no cache entry, or the
  Failure made for a failed dependency), or the one \<^verbatim>\<open>Finished\<close> line of a task without
  action, or start, call and finish in this order, the finish tagged with the outcome;
  for every error \<open>e\<close> there are as many failure-detail events of \<open>e\<close> as tasks whose
  Result is the Failure of \<open>e\<close>; and a task without action has no start event. Second
  part: a call of \<^verbatim>\<open>_run\<close> that hits the cache leaves the state, hence the trace and the
  list of calls, as it is. Third part: a call that computes a Failure ends with its
  failure-detail event.
\<close>

theorem reporter_events:
  assumes "distinct (map name reg)" and "typed_registry reg" and "error_registry reg"
    and "records_calls calls reg"
  shows "(run k reg names w = Some (out, s') \<longrightarrow>
            count_list (calls (world s')) n =
              count_list (calls w) n + count_list (trace s') (Starting n) \<and>
            count_list (calls (world s')) n =
              count_list (calls w) n +
              (count_list (trace s') (Completed n True) + count_list (trace s') (Completed n False)) \<and>
            lifecycle n (finished s' n) (filter (about n) (trace s')) \<and>
            count_list (trace s') (Failure_detail e) = card {m. finished s' m = Some (Failure e)} \<and>
            (t \<in> set reg \<longrightarrow> fn t = None \<longrightarrow> count_list (trace s') (Starting (name t)) = 0)) \<and>
         (finished s (name t) = Some r \<longrightarrow> run' (Suc j) reg t s = Some (Inr r, s)) \<and>
         (finished s (name t) = None \<longrightarrow> run' j reg t s = Some (Inr (Failure e), s1) \<longrightarrow>
            (\<exists>tr. trace s1 = tr @ [Failure_detail e]))"
proof (intro conjI impI)
  assume r: "run k reg names w = Some (out, s')"
  with assms(1-3) have rep: "reported reg s'" by (rule run_reported)
  then have L: "lifecycle n (finished s' n) (filter (about n) (trace s'))"
    unfolding reported_def by blast
  from run_calls_logged[OF assms(4) r]
  have c: "count_list (calls (world s')) n =
      count_list (calls w) n + count_list (trace s') (Invoked n)"
    unfolding calls_logged_def by blast
  from lifecycle_counts[OF L] c
  show "count_list (calls (world s')) n =
          count_list (calls w) n + count_list (trace s') (Starting n)"
    and "count_list (calls (world s')) n =
          count_list (calls w) n +
          (count_list (trace s') (Completed n True) + count_list (trace s') (Completed n False))"
    by simp_all
  show "lifecycle n (finished s' n) (filter (about n) (trace s'))" by (rule L)
  show "count_list (trace s') (Failure_detail e) = card {m. finished s' m = Some (Failure e)}"
    using rep unfolding reported_def by blast
  assume t: "t \<in> set reg" and none: "fn t = None"
  have "Starting (name t) \<notin> set (trace s')"
  proof
    assume "Starting (name t) \<in> set (trace s')"
    with rep obtain u where u: "u \<in> set reg" "name u = name t" "fn u \<noteq> None"
      unfolding reported_def by blast
    from distinct_name_eq[OF assms(1) u(1) t u(2)] u(3) none show False by simp
  qed
  then show "count_list (trace s') (Starting (name t)) = 0" by (simp add: count_list_0_iff)
next
  assume "finished s (name t) = Some r"
  then show "run' (Suc j) reg t s = Some (Inr r, s)" by (rule run'_hit)
next
  assume miss: "finished s (name t) = None" and r: "run' j reg t s = Some (Inr (Failure e), s1)"
  from r obtain j' where j: "j = Suc j'" by (cases j) auto
  from r obtain f s0 where "finish_task t f s0 = (Inr (Failure e), s1)"
    unfolding j run'_miss[OF miss] by (auto split: option.splits sum.splits prod.splits)
  from finish_task_trace[OF this] obtain body where "trace s1 = trace s0 @ body @ detail (Failure e)"
    by blast
  then have "trace s1 = (trace s0 @ body) @ [Failure_detail e]" by simp
  then show "\<exists>tr. trace s1 = tr @ [Failure_detail e]" ..
qed

text \<open>
  The statement at a task \<^verbatim>\<open>P\<close> that depends on \<^verbatim>\<open>A\<close> (whose action throws), \<^verbatim>\<open>B\<close>, \<^verbatim>\<open>G\<close>
  (which has no action) and \<^verbatim>\<open>A\<close> again; the world is the list of the calls.
\<close>

theorem reporter_events_witness:
  "distinct (map name report_registry) \<and> typed_registry report_registry \<and>
   error_registry report_registry \<and> records_calls (\<lambda>w. w) report_registry \<and>
   run 2 report_registry [''P''] [] =
     Some (Inr (Failure (BuildError ''P'' (''task '' @ quoted ''P'' @ '' failed''))), report_final) \<and>
   count_list (world report_final) ''A'' =
     count_list [] ''A'' + count_list (trace report_final) (Starting ''A'') \<and>
   count_list (world report_final) ''A'' =
     count_list [] ''A'' +
     (count_list (trace report_final) (Completed ''A'' True) +
      count_list (trace report_final) (Completed ''A'' False)) \<and>
   lifecycle ''A'' (finished report_final ''A'') (filter (about ''A'') (trace report_final)) \<and>
   count_list (trace report_final) (Failure_detail boom) =
     card {m. finished report_final m = Some (Failure boom)} \<and>
   rec_task ''G'' [] None \<in> set report_registry \<and> fn (rec_task ''G'' [] None) = None \<and>
   count_list (trace report_final) (Starting (name (rec_task ''G'' [] None))) = 0 \<and>
   finished report_final (name (rec_task ''A'' [] (Some (Throws boom)))) = Some (Failure boom) \<and>
   run' (Suc 0) report_registry (rec_task ''A'' [] (Some (Throws boom))) report_final =
     Some (Inr (Failure boom), report_final) \<and>
   finished (init []) (name (rec_task ''A'' [] (Some (Throws boom)))) = None \<and>
   run' 1 report_registry (rec_task ''A'' [] (Some (Throws boom))) (init []) =
     Some (Inr (Failure boom), a_failed) \<and>
   (\<exists>tr. trace a_failed = tr @ [Failure_detail boom])"
proof -
  let ?A = "rec_task ''A'' [] (Some (Throws boom))"
  let ?G = "rec_task ''G'' [] None"
  have d: "distinct (map name report_registry)" by (simp add: report_registry_def rec_task_def)
  have ty: "typed_registry report_registry"
    by (simp add: typed_registry_def typed_fn_def report_registry_def rec_task_def)
  have er: "error_registry report_registry"
    by (simp add: error_registry_def error_fn_def report_registry_def rec_task_def boom_def)
  have rc: "records_calls (\<lambda>w. w) report_registry"
    by (simp add: records_calls_def report_registry_def rec_task_def)
  have r: "run 2 report_registry [''P''] [] =
     Some (Inr (Failure (BuildError ''P'' (''task '' @ quoted ''P'' @ '' failed''))), report_final)"
    by (simp add: report_registry_def rec_task_def report_final_def boom_def eval_run eval_resolve
          numeral_2_eq_2)
  have g: "?G \<in> set report_registry" by (simp add: report_registry_def)
  have gn: "fn ?G = None" by (simp add: rec_task_def)
  have hit: "finished report_final (name ?A) = Some (Failure boom)"
    by (simp add: report_final_def rec_task_def)
  have miss: "finished (init []) (name ?A) = None" by (simp add: init_def)
  have ra: "run' 1 report_registry ?A (init []) = Some (Inr (Failure boom), a_failed)"
    by (simp add: report_registry_def rec_task_def a_failed_def boom_def eval_run eval_resolve)
  note c1 = reporter_events[OF d ty er rc, where k = 2 and names = "[''P'']" and w = "[]"
      and out = "Inr (Failure (BuildError ''P'' (''task '' @ quoted ''P'' @ '' failed'')))"
      and s' = report_final and n = "''A''" and e = boom and t = ?G]
  note c2 = reporter_events[OF d ty er rc, where t = ?A and s = report_final
      and r = "Failure boom" and j = 0]
  note c3 = reporter_events[OF d ty er rc, where t = ?A and s = "init []" and j = 1
      and e = boom and ?s1.0 = a_failed]
  note p1 = c1[THEN conjunct1, THEN mp, OF r]
  have e1: "count_list (world report_final) ''A'' =
     count_list [] ''A'' + count_list (trace report_final) (Starting ''A'')"
    by (rule p1[THEN conjunct1])
  have e2: "count_list (world report_final) ''A'' =
     count_list [] ''A'' +
     (count_list (trace report_final) (Completed ''A'' True) +
      count_list (trace report_final) (Completed ''A'' False))"
    by (rule p1[THEN conjunct2, THEN conjunct1])
  have e3: "lifecycle ''A'' (finished report_final ''A'') (filter (about ''A'') (trace report_final))"
    by (rule p1[THEN conjunct2, THEN conjunct2, THEN conjunct1])
  have e4: "count_list (trace report_final) (Failure_detail boom) =
     card {m. finished report_final m = Some (Failure boom)}"
    by (rule p1[THEN conjunct2, THEN conjunct2, THEN conjunct2, THEN conjunct1])
  have e5: "count_list (trace report_final) (Starting (name ?G)) = 0"
    by (rule p1[THEN conjunct2, THEN conjunct2, THEN conjunct2, THEN conjunct2, THEN mp, THEN mp,
          OF g gn])
  have e6: "run' (Suc 0) report_registry ?A report_final = Some (Inr (Failure boom), report_final)"
    by (rule c2[THEN conjunct2, THEN conjunct1, THEN mp, OF hit])
  have e7: "\<exists>tr. trace a_failed = tr @ [Failure_detail boom]"
    by (rule c3[THEN conjunct2, THEN conjunct2, THEN mp, THEN mp, OF miss ra])
  from d ty er rc r e1 e2 e3 e4 g gn e5 hit e6 miss ra e7 show ?thesis by (intro conjI)
qed

section \<open>Termination\<close>

lemma run_resolved_defined:
  "(\<forall>d \<in> set ds. \<forall>s. rec d s \<noteq> None) \<Longrightarrow> run_resolved rec ds f s \<noteq> None"
proof (induction ds arbitrary: f s)
  case Nil
  then show ?case by simp
next
  case (Cons d ds)
  then obtain o1 s1 where "rec d s = Some (o1, s1)" by fastforce
  with Cons show ?case by (cases o1) auto
qed

lemma run_deps_defined:
  "(\<forall>d \<in> set (resolved_list reg t nms). \<forall>s. rec d s \<noteq> None) \<Longrightarrow>
   run_deps rec reg t nms f s \<noteq> None"
proof (induction nms arbitrary: f s)
  case Nil
  then show ?case by simp
next
  case (Cons nm nms)
  show ?case
  proof (cases "resolve_task reg nm (Some t)")
    case (Inl e)
    then show ?thesis by simp
  next
    case (Inr ds)
    note rl = resolved_list_Cons[OF Inr, of nms]
    from Cons.prems rl have d: "\<forall>d \<in> set ds. \<forall>s. rec d s \<noteq> None"
      and rest: "\<forall>d \<in> set (resolved_list reg t nms). \<forall>s. rec d s \<noteq> None" by auto
    from run_resolved_defined[OF d, of f s] obtain o1 s1 where
      r: "run_resolved rec ds f s = Some (o1, s1)" by fastforce
    show ?thesis using Inr r Cons.IH[OF rest] by (cases o1) auto
  qed
qed

lemma run_matches_defined:
  "(\<forall>t \<in> set ts. \<forall>s. rec t s \<noteq> None) \<Longrightarrow> run_matches rec ts s \<noteq> None"
proof (induction ts arbitrary: s)
  case Nil
  then show ?case by simp
next
  case (Cons t ts)
  then obtain o1 s1 where "rec t s = Some (o1, s1)" by fastforce
  with Cons show ?case by (cases o1) auto
qed

lemma run_names_defined:
  "(\<forall>t \<in> set reg. \<forall>s. rec t s \<noteq> None) \<Longrightarrow> run_names rec reg names s \<noteq> None"
proof (induction names arbitrary: s)
  case Nil
  then show ?case by simp
next
  case (Cons nm nms)
  show ?case
  proof (cases "resolve_task reg nm None")
    case (Inl e)
    then show ?thesis by simp
  next
    case (Inr ts)
    with Cons.prems resolve_in_registry[OF Inr] have "\<forall>t \<in> set ts. \<forall>s. rec t s \<noteq> None" by blast
    from run_matches_defined[OF this, of s] obtain o1 s1 where
      r: "run_matches rec ts s = Some (o1, s1)" by fastforce
    show ?thesis
    proof (cases o1)
      case (Inl e)
      with Inr r show ?thesis by simp
    next
      case o1: (Inr ro)
      with Inr r Cons.IH[OF Cons.prems] show ?thesis by (cases ro) auto
    qed
  qed
qed

lemma uniform_bound:
  "(\<forall>x \<in> set xs. \<exists>n. \<forall>m \<ge> n. Q x (m::nat)) \<Longrightarrow> \<exists>N. \<forall>x \<in> set xs. \<forall>m \<ge> N. Q x m"
proof (induction xs)
  case Nil
  then show ?case by simp
next
  case (Cons x xs)
  then obtain N where N: "\<forall>x \<in> set xs. \<forall>m \<ge> N. Q x m" by auto
  from Cons.prems obtain n where n: "\<forall>m \<ge> n. Q x m" by auto
  have "\<forall>y \<in> set (x # xs). \<forall>m \<ge> max n N. Q y m" using N n by auto
  then show ?case ..
qed

lemma run'_defined_acyclic:
  assumes "acyclic (deps_rel reg)"
  shows "\<forall>t \<in> set reg. name t = a \<longrightarrow> (\<exists>n. \<forall>m \<ge> n. \<forall>s. run' m reg t s \<noteq> None)"
proof -
  have "wf ((deps_rel reg)\<inverse>)"
    using finite_deps_rel assms by (rule finite_acyclic_wf_converse)
  then show ?thesis
  proof (induction a rule: wf_induct_rule)
    case (less a)
    show ?case
    proof (intro ballI impI)
      fix t assume t: "t \<in> set reg" and a: "name t = a"
      have "\<forall>d \<in> set (resolved_deps reg t). \<exists>n. \<forall>m \<ge> n. \<forall>s. run' m reg d s \<noteq> None"
      proof
        fix d assume d: "d \<in> set (resolved_deps reg t)"
        then have "(name d, a) \<in> (deps_rel reg)\<inverse>" using t a by (auto simp: deps_rel_def)
        moreover have "d \<in> set reg"
          using d resolved_list_in_registry unfolding resolved_deps_def by blast
        ultimately show "\<exists>n. \<forall>m \<ge> n. \<forall>s. run' m reg d s \<noteq> None" using less by blast
      qed
      from uniform_bound[where Q = "\<lambda>d m. \<forall>s. run' m reg d s \<noteq> None", OF this]
      obtain N where N: "\<forall>d \<in> set (resolved_deps reg t). \<forall>m \<ge> N. \<forall>s. run' m reg d s \<noteq> None"
        by blast
      have "run' m reg t s \<noteq> None" if "m \<ge> Suc N" for m s
      proof -
        from that obtain m' where m: "m = Suc m'" and m': "m' \<ge> N" by (cases m) auto
        have "\<forall>d \<in> set (resolved_list reg t (deps t)). \<forall>s. run' m' reg d s \<noteq> None"
          using N m' unfolding resolved_deps_def by blast
        from run_deps_defined[where rec = "run' m' reg", OF this, of False s]
        obtain o1 s1 where loop: "run_deps (run' m' reg) reg t (deps t) False s = Some (o1, s1)"
          by fastforce
        show ?thesis
        proof (cases "finished s (name t)")
          case None
          show ?thesis unfolding m run'_miss[OF None] using loop by (cases o1) auto
        next
          case (Some r)
          then show ?thesis unfolding m by simp
        qed
      qed
      then show "\<exists>n. \<forall>m \<ge> n. \<forall>s. run' m reg t s \<noteq> None" by blast
    qed
  qed
qed

lemma run_defined_acyclic:
  assumes "acyclic (deps_rel reg)"
  shows "\<exists>k. \<forall>names w. run k reg names w \<noteq> None"
proof -
  have "\<forall>t \<in> set reg. \<exists>n. \<forall>m \<ge> n. \<forall>s. run' m reg t s \<noteq> None"
    using run'_defined_acyclic[OF assms] by blast
  from uniform_bound[where Q = "\<lambda>d m. \<forall>s. run' m reg d s \<noteq> None", OF this]
  obtain N where "\<forall>t \<in> set reg. \<forall>m \<ge> N. \<forall>s. run' m reg t s \<noteq> None" by blast
  then have "\<forall>t \<in> set reg. \<forall>s. run' N reg t s \<noteq> None" by blast
  then have "run N reg names w \<noteq> None" for names w
    unfolding run_def by (rule run_names_defined)
  then have "\<forall>names w. run N reg names w \<noteq> None" by blast
  then show ?thesis ..
qed

lemma cycle_edges_into:
  assumes "(a, a) \<in> (deps_rel reg)\<^sup>+"
  shows "edges_into reg {b. (a, b) \<in> (deps_rel reg)\<^sup>+ \<and> (b, a) \<in> (deps_rel reg)\<^sup>+} a"
  unfolding edges_into_def
proof
  fix b assume "b \<in> {b. (a, b) \<in> (deps_rel reg)\<^sup>+ \<and> (b, a) \<in> (deps_rel reg)\<^sup>+}"
  then have ab: "(a, b) \<in> (deps_rel reg)\<^sup>+" and ba: "(b, a) \<in> (deps_rel reg)\<^sup>+" by auto
  from tranclD[OF ba] obtain z where bz: "(b, z) \<in> deps_rel reg" and za: "(z, a) \<in> (deps_rel reg)\<^sup>*"
    by blast
  from bz obtain u d where u: "u \<in> set reg" "name u = b" and d: "d \<in> set (resolved_deps reg u)"
    "name d = z" unfolding deps_rel_def by auto
  have az: "(a, z) \<in> (deps_rel reg)\<^sup>+" using ab bz by (rule trancl_into_trancl)
  have "z = a \<or> (z, a) \<in> (deps_rel reg)\<^sup>+" using za by (auto dest: rtranclD)
  with az have "z \<in> insert a {b. (a, b) \<in> (deps_rel reg)\<^sup>+ \<and> (b, a) \<in> (deps_rel reg)\<^sup>+}"
    by auto
  with u d show "\<exists>u \<in> set reg. name u = b \<and>
      (\<exists>d \<in> set (resolved_deps reg u).
         name d \<in> insert a {b. (a, b) \<in> (deps_rel reg)\<^sup>+ \<and> (b, a) \<in> (deps_rel reg)\<^sup>+})"
    by blast
qed

lemma run'_on_cycle:
  assumes "distinct (map name reg)" and "t \<in> set reg"
    and "(name t, name t) \<in> (deps_rel reg)\<^sup>+"
    and "finished s = Map.empty"
    and "run' k reg t s = Some (out, s')"
  shows "isl out"
proof -
  let ?B = "{b. (name t, b) \<in> (deps_rel reg)\<^sup>+ \<and> (b, name t) \<in> (deps_rel reg)\<^sup>+}"
  have "edges_into reg ?B (name t)" by (rule cycle_edges_into[OF assms(3)])
  moreover have "\<forall>b \<in> ?B. finished s b = None" using assms(4) by simp
  ultimately have "name t \<in> ?B \<longrightarrow> isl out"
    using blocked_never_finishes[OF assms(1,2) _ _ assms(5), of ?B] by blast
  with assms(3) show ?thesis by simp
qed

text \<open>
  Claim C10. First part: when the relation between the name of a registered task and
  the names of the tasks its dependency patterns resolve to is acyclic, some depth
  suffices for every call of \<^verbatim>\<open>run\<close>: it returns or throws (the actions being total).
  Second part: in a registry with one task per name, a requested task that is reachable
  from its own dependencies never lets \<^verbatim>\<open>run\<close> return a Result, whatever the depth
  allowed. Third part, the reason: while the loop over the dependencies of a task runs,
  the task has no entry in \<^verbatim>\<open>finished\<close>, so a recursive call for it does not hit the
  cache.
\<close>

theorem termination_and_cycles:
  "(acyclic (deps_rel reg) \<longrightarrow> (\<exists>k. \<forall>names w. run k reg names w \<noteq> None)) \<and>
   (distinct (map name reg) \<longrightarrow> t \<in> set reg \<longrightarrow> (name t, name t) \<in> (deps_rel reg)\<^sup>+ \<longrightarrow>
    fst (split_name (name t)) \<noteq> Some ''*'' \<longrightarrow>
      (\<forall>k r s'. run k reg (name t # rest) w \<noteq> Some (Inr r, s'))) \<and>
   (distinct (map name reg) \<longrightarrow> t \<in> set reg \<longrightarrow> finished s (name t) = None \<longrightarrow>
    run_deps (run' k reg) reg t (deps t) False s = Some (out, s1) \<longrightarrow>
      finished s1 (name t) = None)"
proof (intro conjI impI)
  assume "acyclic (deps_rel reg)"
  then show "\<exists>k. \<forall>names w. run k reg names w \<noteq> None" by (rule run_defined_acyclic)
next
  assume a: "distinct (map name reg)" "t \<in> set reg" "(name t, name t) \<in> (deps_rel reg)\<^sup>+"
    "fst (split_name (name t)) \<noteq> Some ''*''"
  have res: "resolve_task reg (name t) None = Inr [t]"
    by (rule resolve_registered[OF a(1,2,4)])
  have cyc: "isl out" if "run' k reg t (init w) = Some (out, s')" for k out s'
    using run'_on_cycle[OF a(1,2,3) _ that] by (simp add: init_def)
  show "\<forall>k r s'. run k reg (name t # rest) w \<noteq> Some (Inr r, s')"
  proof (intro allI notI)
    fix k r s'
    assume "run k reg (name t # rest) w = Some (Inr r, s')"
    then show False
      using cyc[of k] res
      by (auto simp: run_def split: option.splits sum.splits prod.splits if_splits)
  qed
next
  assume "distinct (map name reg)" "t \<in> set reg" "finished s (name t) = None"
    "run_deps (run' k reg) reg t (deps t) False s = Some (out, s1)"
  then show "finished s1 (name t) = None" by (rule deps_leave_task_uncached)
qed

text \<open>
  The statement at the diamond (acyclic) and at two tasks \<^verbatim>\<open>a\<close> and \<^verbatim>\<open>b\<close> that depend on each
  other.
\<close>

theorem termination_and_cycles_witness:
  "acyclic (deps_rel diamond_registry) \<and>
   (\<exists>k. \<forall>names w. run k diamond_registry names w \<noteq> None) \<and>
   distinct (map name cycle_registry) \<and>
   mk_task ''a'' [''b''] (Some act_ok) \<in> set cycle_registry \<and>
   (name (mk_task ''a'' [''b''] (Some act_ok)), name (mk_task ''a'' [''b''] (Some act_ok)))
     \<in> (deps_rel cycle_registry)\<^sup>+ \<and>
   fst (split_name (name (mk_task ''a'' [''b''] (Some act_ok)))) \<noteq> Some ''*'' \<and>
   (\<forall>k r s'. run k cycle_registry (name (mk_task ''a'' [''b''] (Some act_ok)) # []) 0
      \<noteq> Some (Inr r, s')) \<and>
   distinct (map name diamond_registry) \<and>
   mk_task ''top'' [''a'', ''b''] None \<in> set diamond_registry \<and>
   finished (init 0) (name (mk_task ''top'' [''a'', ''b''] None)) = None \<and>
   run_deps (run' 2 diamond_registry) diamond_registry (mk_task ''top'' [''a'', ''b''] None)
     (deps (mk_task ''top'' [''a'', ''b''] None)) False (init 0) = Some (Inr False, deps_done) \<and>
   finished deps_done (name (mk_task ''top'' [''a'', ''b''] None)) = None"
proof -
  let ?A = "mk_task ''a'' [''b''] (Some act_ok)"
  let ?B = "mk_task ''b'' [''a''] (Some act_ok)"
  let ?T = "mk_task ''top'' [''a'', ''b''] None"
  have ac: "acyclic (deps_rel diamond_registry)"
    by (rule acyclicI_order[where f = "\<lambda>n. if n = ''top'' then 2 else if n = ''shared'' then 0 else (1::nat)"])
       (auto simp: deps_rel_def resolved_deps_def resolved_list_def diamond_registry_def eval_resolve)
  have d: "distinct (map name cycle_registry)" by (simp add: cycle_registry_def mk_task_def)
  have a: "?A \<in> set cycle_registry" by (simp add: cycle_registry_def)
  have b: "?B \<in> set cycle_registry" by (simp add: cycle_registry_def)
  have ab: "?B \<in> set (resolved_deps cycle_registry ?A)"
    by (simp add: resolved_deps_def resolved_list_def cycle_registry_def eval_resolve)
  have ba: "?A \<in> set (resolved_deps cycle_registry ?B)"
    by (simp add: resolved_deps_def resolved_list_def cycle_registry_def eval_resolve)
  have cyc: "(name ?A, name ?A) \<in> (deps_rel cycle_registry)\<^sup>+"
    using deps_relI[OF a ab] deps_relI[OF b ba] by (rule trancl_into_trancl[OF r_into_trancl])
  have nw: "fst (split_name (name ?A)) \<noteq> Some ''*''"
    by (simp add: mk_task_def split_name_def js_split_def)
  have dd: "distinct (map name diamond_registry)"
    by (simp add: diamond_registry_def mk_task_def)
  have t: "?T \<in> set diamond_registry" by (simp add: diamond_registry_def)
  have miss: "finished (init 0) (name ?T) = None" by (simp add: init_def)
  have loop: "run_deps (run' 2 diamond_registry) diamond_registry ?T (deps ?T) False (init 0) =
              Some (Inr False, deps_done)"
    by (simp add: diamond_registry_def deps_done_def eval_run eval_resolve numeral_2_eq_2)
  note c1 = termination_and_cycles[where reg = diamond_registry and t = ?T and s = "init 0"
      and k = 2 and out = "Inr False" and ?s1.0 = deps_done]
  note c2 = termination_and_cycles[where reg = cycle_registry and t = ?A and rest = "[]" and w = 0]
  have t1: "\<exists>k. \<forall>names w. run k diamond_registry names w \<noteq> None"
    by (rule c1[THEN conjunct1, THEN mp, OF ac])
  have t2: "\<forall>k r s'. run k cycle_registry (name ?A # []) 0 \<noteq> Some (Inr r, s')"
    by (rule c2[THEN conjunct2, THEN conjunct1, THEN mp, THEN mp, THEN mp, THEN mp, OF d a cyc nw])
  have t4: "finished deps_done (name ?T) = None"
    by (rule c1[THEN conjunct2, THEN conjunct2, THEN mp, THEN mp, THEN mp, THEN mp, OF dd t miss loop])
  from ac t1 d a cyc nw t2 dd t miss loop t4 show ?thesis by (intro conjI)
qed

end
